theory Spec2Isabelle
  imports Main
begin

section \<open>JavaScript strings and insertion-ordered collections\<close>

text \<open>
  Strings are lists of characters; a character stands for a UTF-16 code unit below
  \<^verbatim>\<open>0x100\<close>. Of these, \<^verbatim>\<open>String.prototype.trim\<close> and the white-space class of a regular
  expression take as white space or line terminator: tab, line feed, vertical tab, form feed,
  carriage return, space and the no-break space \<^verbatim>\<open>U+00A0\<close>.
\<close>

definition is_space :: "char \<Rightarrow> bool" where
  "is_space c = (c \<in> set [CHR 0x09, CHR 0x0A, CHR 0x0B, CHR 0x0C, CHR 0x0D, CHR '' '', CHR 0xA0])"

definition trim :: "string \<Rightarrow> string" where
  "trim s = rev (dropWhile is_space (rev (dropWhile is_space s)))"

fun join :: "string \<Rightarrow> string list \<Rightarrow> string" where
  "join sep [] = []"
| "join sep [x] = x"
| "join sep (x # y # ys) = x @ sep @ join sep (y # ys)"

fun split_on :: "char \<Rightarrow> string \<Rightarrow> string list" where
  "split_on c [] = [[]]"
| "split_on c (x # xs) =
     (if x = c then [] # split_on c xs
      else (case split_on c xs of [] \<Rightarrow> [[x]] | y # ys \<Rightarrow> (x # y) # ys))"

fun startsWith :: "string \<Rightarrow> string \<Rightarrow> bool" where
  "startsWith s [] = True"
| "startsWith [] (p # ps) = False"
| "startsWith (x # xs) (p # ps) = (x = p \<and> startsWith xs ps)"

definition endsWith :: "string \<Rightarrow> string \<Rightarrow> bool" where
  "endsWith s p = startsWith (rev s) (rev p)"

fun includes_str :: "string \<Rightarrow> string \<Rightarrow> bool" where
  "includes_str [] p = (p = [])"
| "includes_str (x # xs) p = (startsWith (x # xs) p \<or> includes_str xs p)"

text \<open>\<^verbatim>\<open>s.replace(/pat/, rep)\<close> for a literal pattern: the first occurrence only.\<close>

fun replace_first :: "string \<Rightarrow> string \<Rightarrow> string \<Rightarrow> string" where
  "replace_first pat rep [] = (if pat = [] then rep else [])"
| "replace_first pat rep (c # cs) =
     (if startsWith (c # cs) pat then rep @ drop (length pat) (c # cs)
      else c # replace_first pat rep cs)"

text \<open>\<^verbatim>\<open>toUpperCase\<close> on ASCII letters.\<close>

definition upper_char :: "char \<Rightarrow> char" where
  "upper_char c =
     (case map_of (zip ''abcdefghijklmnopqrstuvwxyz'' ''ABCDEFGHIJKLMNOPQRSTUVWXYZ'') c of
        None \<Rightarrow> c
      | Some u \<Rightarrow> u)"

definition toUpperCase :: "string \<Rightarrow> string" where
  "toUpperCase s = map upper_char s"

text \<open>\<^verbatim>\<open>path.basename\<close>, \<^verbatim>\<open>path.dirname\<close> and \<^verbatim>\<open>path.join\<close> on plain POSIX paths (no
  trailing separator, no normalisation of dots).\<close>

definition basename :: "string \<Rightarrow> string" where
  "basename p = last (split_on CHR ''/'' p)"

definition dirname :: "string \<Rightarrow> string" where
  "dirname p =
     (let cs = butlast (split_on CHR ''/'' p) in if cs = [] then ''.'' else join ''/'' cs)"

definition path_join :: "string list \<Rightarrow> string" where
  "path_join ps = join ''/'' ps"

text \<open>A JavaScript \<^verbatim>\<open>Set\<close> iterates in insertion order: a list without duplicates.\<close>

definition set_add :: "'a \<Rightarrow> 'a list \<Rightarrow> 'a list" where
  "set_add x xs = (if x \<in> set xs then xs else xs @ [x])"

definition set_delete :: "'a \<Rightarrow> 'a list \<Rightarrow> 'a list" where
  "set_delete x xs = removeAll x xs"

section \<open>The Task primitive (class Task, src/src/reporter.ts)\<close>

datatype status = Pending | Running | Success | Failed

text \<open>
  What a promise is rejected with: an object whose \<^verbatim>\<open>message\<close> is a string, or anything
  else (then \<^verbatim>\<open>e.message.trim()\<close> raises inside the catch handler).
\<close>

datatype rejection = ErrorObject string | NoMessage

datatype 'a outcome = Resolved "'a option" | Rejected rejection

datatype 'a promise = Unsettled | Settled "'a outcome"

record 'a task =
  name :: string
  status :: status
  runningPromise :: "'a promise option"
  error :: "string option"
  message :: "'a option"

text \<open>The constructor: \<^verbatim>\<open>new Task(name, job)\<close>. The job is the source of the outcome with
  which \<^verbatim>\<open>runningPromise\<close> later settles.\<close>

definition Task :: "string \<Rightarrow> 'a task" where
  "Task n = \<lparr>name = n, status = Pending, runningPromise = None, error = None, message = None\<rparr>"

text \<open>
  What the call \<^verbatim>\<open>this.job()\<close> does: it returns a promise (an \<^verbatim>\<open>async\<close> function always
  does, whatever happens in its body), or it throws before it has returned one.
\<close>

datatype job_call = ReturnsPromise | Throws

text \<open>
  \<^verbatim>\<open>run()\<close> up to its \<^verbatim>\<open>await\<close>. When the status is not pending this is the whole
  invocation: it returns at once, calls no job and registers no callback. Otherwise the
  status becomes running and the job is called. When that call throws, nothing is
  assigned to \<^verbatim>\<open>runningPromise\<close>, no callback is registered and the promise of \<^verbatim>\<open>run()\<close>
  itself rejects.
\<close>

definition run :: "job_call \<Rightarrow> 'a task \<Rightarrow> 'a task" where
  "run jc t =
     (if status t \<noteq> Pending then t
      else (case jc of
              ReturnsPromise \<Rightarrow> t\<lparr>status := Running, runningPromise := Some Unsettled\<rparr>
            | Throws \<Rightarrow> t\<lparr>status := Running\<rparr>))"

text \<open>
  The \<^verbatim>\<open>then\<close>/\<^verbatim>\<open>catch\<close> callbacks that \<^verbatim>\<open>run()\<close> registered, fired when
  \<^verbatim>\<open>runningPromise\<close> settles. A promise settles once, and only a promise that
  \<^verbatim>\<open>run()\<close> created has the callbacks. The \<^verbatim>\<open>catch\<close> callback sets the status before
  it evaluates \<^verbatim>\<open>e.message.trim()\<close>: on a rejection without a string \<^verbatim>\<open>message\<close> that
  expression raises and \<^verbatim>\<open>error\<close> is not assigned.
\<close>

definition settle :: "'a outcome \<Rightarrow> 'a task \<Rightarrow> 'a task" where
  "settle oc t =
     (case runningPromise t of
        Some Unsettled \<Rightarrow>
          (case oc of
             Resolved msg \<Rightarrow>
               t\<lparr>runningPromise := Some (Settled oc), status := Success, message := msg\<rparr>
           | Rejected (ErrorObject m) \<Rightarrow>
               t\<lparr>runningPromise := Some (Settled oc), status := Failed, error := Some (trim m)\<rparr>
           | Rejected NoMessage \<Rightarrow>
               t\<lparr>runningPromise := Some (Settled oc), status := Failed\<rparr>)
      | _ \<Rightarrow> t)"

definition done_task :: "'a task \<Rightarrow> bool" where
  "done_task t = (status t \<in> set [Success, Failed])"

text \<open>Everything that can happen to a task: an invocation of \<^verbatim>\<open>run()\<close>, or the
  settlement of the promise in flight.\<close>

datatype 'a event = Run job_call | Settle "'a outcome"

fun step :: "'a event \<Rightarrow> 'a task \<Rightarrow> 'a task" where
  "step (Run jc) t = run jc t"
| "step (Settle oc) t = settle oc t"

definition exec :: "'a event list \<Rightarrow> 'a task \<Rightarrow> 'a task" where
  "exec es t = fold step es t"

text \<open>The lifecycle order: one move forward along pending, running, then success or failed.\<close>

fun advances :: "status \<Rightarrow> status \<Rightarrow> bool" where
  "advances Pending Running = True"
| "advances Running Success = True"
| "advances Running Failed = True"
| "advances a b = False"


section \<open>The topological sorter (topologicalSort, src/unnamed/part_002)\<close>

type_synonym relation = "string \<times> string"

datatype error = Error string

text \<open>\<^verbatim>\<open>E.get(n) ?? 0\<close> and \<^verbatim>\<open>G.get(n) ?? []\<close>.\<close>

definition getE :: "(string \<rightharpoonup> int) \<Rightarrow> string \<Rightarrow> int" where
  "getE e n = (case e n of None \<Rightarrow> 0 | Some k \<Rightarrow> k)"

definition getG :: "(string \<rightharpoonup> string list) \<Rightarrow> string \<Rightarrow> string list" where
  "getG g n = (case g n of None \<Rightarrow> [] | Some ss \<Rightarrow> ss)"

text \<open>
  The accumulator of the \<^verbatim>\<open>reduce\<close>: \<open>E\<close> counts, for each source, the relations of the
  list that start there; \<open>G\<close> maps a destination to the set of its sources (a new source
  goes first); \<open>N\<close> is the set of all nodes.
\<close>

record sort_state =
  E :: "string \<rightharpoonup> int"
  G :: "string \<rightharpoonup> string list"
  N :: "string list"

definition add_relation :: "relation \<Rightarrow> sort_state \<Rightarrow> sort_state" where
  "add_relation r st =
     (case r of (src, dst) \<Rightarrow>
        \<lparr>E = (E st)(src \<mapsto> 1 + getE (E st) src),
         G = (G st)(dst \<mapsto> src # removeAll src (getG (G st) dst)),
         N = set_add src (set_add dst (N st))\<rparr>)"

definition reduce_relations :: "relation list \<Rightarrow> sort_state" where
  "reduce_relations rs = fold add_relation rs \<lparr>E = Map.empty, G = Map.empty, N = []\<rparr>"

definition decrement :: "string \<Rightarrow> (string \<rightharpoonup> int) \<Rightarrow> (string \<rightharpoonup> int)" where
  "decrement n e = e(n \<mapsto> - 1 + getE e n)"

text \<open>
  The \<^verbatim>\<open>while\<close> loop, on the state \<open>(E, N, S, L)\<close>; it returns the state in which the
  loop ends. \<^verbatim>\<open>S.pop()\<close> takes the last element; \<^verbatim>\<open>if (!tgt) break\<close> leaves the loop on
  the empty string; the nodes that became ready leave \<open>N\<close> and go to the front of \<open>S\<close>.
\<close>

function kahn_loop ::
  "(string \<rightharpoonup> string list) \<Rightarrow> (string \<rightharpoonup> int) \<Rightarrow> string list \<Rightarrow> string list \<Rightarrow> string list
     \<Rightarrow> (string \<rightharpoonup> int) \<times> string list \<times> string list" where
  "kahn_loop g e n s l =
     (if s = [] then (e, n, l)
      else
        let tgt = last s; s1 = butlast s in
        if tgt = [] then (e, n, l)
        else
          let l' = set_add tgt l;
              e' = fold decrement (getG g tgt) e;
              ready = filter (\<lambda>x. getE e' x \<le> 0) n;
              n' = fold set_delete ready n;
              s' = fold (\<lambda>x ret. x # ret) ready s1
          in kahn_loop g e' n' s' l')"
  by pat_completeness auto
termination
proof (relation "measure (\<lambda>(g, e, n, s, l). length s + length n)", goal_cases)
  case 1
  then show ?case by simp
next
  case (2 g e n s l tgt s1 l' e' ready n' s')
  have del: "fold set_delete ys xs = filter (\<lambda>x. x \<notin> set ys) xs" for ys xs :: "string list"
    by (induction ys arbitrary: xs)
       (auto simp: set_delete_def removeAll_filter_not_eq intro: filter_cong)
  have "n' = filter (\<lambda>x. \<not> getE e' x \<le> 0) n"
    unfolding 2 del by (rule filter_cong) auto
  then have "length n' + length ready = length n"
    using 2 sum_length_filter_compl[of "\<lambda>x. getE e' x \<le> 0" n] by simp
  moreover have "length s' = length ready + length s1" using 2 by (simp add: fold_Cons_rev)
  moreover have "length s1 < length s" using 2 by simp
  ultimately show ?case by simp
qed

declare kahn_loop.simps [simp del]

definition topologicalSort :: "relation list \<Rightarrow> error + string list" where
  "topologicalSort relations =
     (let st = reduce_relations relations;
          s = filter (\<lambda>n. getE (E st) n = 0) (N st);
          n = fold set_delete s (N st)
      in case kahn_loop (G st) (E st) n s [] of
           (e', n', l) \<Rightarrow>
             if n' \<noteq> [] then Inl (Error (''Cycle detected: '' @ join '', '' n'))
             else Inr l)"

subsection \<open>Vocabulary for the sorter's specification\<close>

definition nodes :: "relation list \<Rightarrow> string set" where
  "nodes rs = fst ` set rs \<union> snd ` set rs"

text \<open>\<open>x\<close> occurs in \<open>xs\<close> before the first occurrence of \<open>y\<close>.\<close>

definition appears_before :: "'a \<Rightarrow> 'a \<Rightarrow> 'a list \<Rightarrow> bool" where
  "appears_before x y xs = (x \<in> set (takeWhile (\<lambda>z. z \<noteq> y) xs) \<and> y \<in> set xs)"

text \<open>A node from which a directed cycle of the edge set can be reached.\<close>

definition reaches_cycle :: "relation list \<Rightarrow> string \<Rightarrow> bool" where
  "reaches_cycle rs x = (\<exists>m. (x, m) \<in> (set rs)\<^sup>* \<and> (m, m) \<in> (set rs)\<^sup>+)"

text \<open>The targets of \<open>x\<close> that are not yet in the output, and the invariant of the loop.\<close>

definition outs :: "relation list \<Rightarrow> string list \<Rightarrow> string \<Rightarrow> string set" where
  "outs rs l x = {d. (x, d) \<in> set rs \<and> d \<notin> set l}"

definition kahn_inv ::
  "relation list \<Rightarrow> (string \<rightharpoonup> string list) \<Rightarrow> (string \<rightharpoonup> int) \<Rightarrow> string list \<Rightarrow> string list
     \<Rightarrow> string list \<Rightarrow> bool" where
  "kahn_inv rs g e n s l =
     (distinct (l @ s @ n) \<and> set l \<union> set s \<union> set n = nodes rs \<and>
      (\<forall>x. getE e x = int (card (outs rs l x))) \<and>
      (\<forall>x \<in> set s. getE e x = 0) \<and>
      (\<forall>x \<in> set n. 0 < getE e x) \<and>
      (\<forall>a b. (a, b) \<in> set rs \<longrightarrow> a \<in> set l \<longrightarrow> appears_before b a l) \<and>
      (\<forall>d. set (getG g d) = {a. (a, d) \<in> set rs} \<and> distinct (getG g d)))"


section \<open>What the planner and the executor consume\<close>

text \<open>
  Functions of the repository that are not among the sources (\<^verbatim>\<open>path2bq\<close> and
  \<^verbatim>\<open>normalizedBQPath\<close>, imported from \<^verbatim>\<open>src/bigquery.js\<close>), the SQL parser behind
  \<^verbatim>\<open>extractRefenrences\<close> and \<^verbatim>\<open>extractDestinations\<close>, the file system, the operator's
  terminal and node's \<^verbatim>\<open>path.relative\<close> are parameters. A read that fails is \<open>Inl\<close> with
  the error as text.
\<close>

record host =
  path2bq :: "string \<Rightarrow> string \<Rightarrow> string \<Rightarrow> string"
  normalizedBQPath :: "string \<Rightarrow> string option \<Rightarrow> bool \<Rightarrow> string"
  extractRefenrences :: "string \<Rightarrow> string list"
  extractDestinations :: "string \<Rightarrow> (string \<times> string) list"
  readFile :: "string \<Rightarrow> string + string"
  existsSync :: "string \<Rightarrow> bool"
  walk :: "string \<Rightarrow> string list"
  prompt :: "string \<Rightarrow> string"
  relative_name :: "string \<Rightarrow> string \<Rightarrow> string"

text \<open>A JavaScript \<^verbatim>\<open>Map\<close>: an association list in insertion order; \<^verbatim>\<open>set\<close> on a present key
  keeps its place.\<close>

fun map_set :: "'k \<Rightarrow> 'v \<Rightarrow> ('k \<times> 'v) list \<Rightarrow> ('k \<times> 'v) list" where
  "map_set k v [] = [(k, v)]"
| "map_set k v (p # al) = (if fst p = k then (k, v) # al else p # map_set k v al)"

definition map_delete :: "'k \<Rightarrow> ('k \<times> 'v) list \<Rightarrow> ('k \<times> 'v) list" where
  "map_delete k al = filter (\<lambda>p. fst p \<noteq> k) al"

definition map_has :: "('k \<times> 'v) list \<Rightarrow> 'k \<Rightarrow> bool" where
  "map_has al k = (k \<in> set (map fst al))"

text \<open>\<^verbatim>\<open>[...new Set(xs)]\<close>, array destructuring, and \<^verbatim>\<open>n.replace(/\.[^.]+$/, '')\<close>.\<close>

definition uniq :: "'a list \<Rightarrow> 'a list" where
  "uniq xs = fold set_add xs []"

definition nth_opt :: "'a list \<Rightarrow> nat \<Rightarrow> 'a option" where
  "nth_opt xs i = (if i < length xs then Some (xs ! i) else None)"

definition drop_last_segment :: "string \<Rightarrow> string" where
  "drop_last_segment n =
     (let parts = split_on CHR ''.'' n
      in if 2 \<le> length parts \<and> last parts \<noteq> [] then join ''.'' (butlast parts) else n)"

section \<open>The deployment planner (pushBigQueryResourecs, src/unnamed/part_001)\<close>

record BigQueryJobResource =
  job_file :: string
  namespace :: string
  dependencies :: "string list"
  destinations :: "string list"

definition extractBigQueryDependencies :: "host \<Rightarrow> string \<Rightarrow> string \<Rightarrow> string \<Rightarrow> string + string list" where
  "extractBigQueryDependencies h defaultProjectId rootPath fpath =
     (let parts = split_on CHR ''.'' (path2bq h fpath rootPath defaultProjectId);
          projectID = nth_opt parts 0;
          schema = nth_opt parts 1;
          resource = nth_opt parts 2
      in case readFile h fpath of
           Inl err \<Rightarrow> Inl err
         | Inr sql \<Rightarrow>
             let refs = uniq (map (\<lambda>ref. normalizedBQPath h ref projectID False)
                                  (extractRefenrences h sql));
                 refs_schemas = map drop_last_segment (uniq refs);
                 additionals =
                   (case (schema, resource) of
                      (Some sc, Some r) \<Rightarrow> [normalizedBQPath h sc projectID True]
                    | _ \<Rightarrow> [])
             in Inr (uniq (refs_schemas @ refs @ additionals)))"

definition extractBigQueryDestinations :: "host \<Rightarrow> string \<Rightarrow> string \<Rightarrow> string \<Rightarrow> string + string list" where
  "extractBigQueryDestinations h defaultProjectId rootPath fpath =
     (let bqID = path2bq h fpath rootPath defaultProjectId;
          projectID = nth_opt (split_on CHR ''.'' bqID) 0
      in if endsWith fpath ''view.sql'' then Inr [bqID]
         else case readFile h fpath of
                Inl err \<Rightarrow> Inl err
              | Inr sql \<Rightarrow>
                  Inr (uniq (map (\<lambda>(ref, ty). normalizedBQPath h ref projectID (ty = ''SCHEMA''))
                                 (extractDestinations h sql))))"

text \<open>
  One element of \<^verbatim>\<open>results\<close>. In the source the callback of \<^verbatim>\<open>filter\<close> names its
  parameter \<^verbatim>\<open>n\<close>, as the enclosing callback names the file: inside it \<^verbatim>\<open>n\<close> is the
  dependency, and \<^verbatim>\<open>path2bq\<close> is applied to the dependency.
\<close>

definition job_resource :: "host \<Rightarrow> string \<Rightarrow> string \<Rightarrow> string \<Rightarrow> string + BigQueryJobResource" where
  "job_resource h defaultProjectId rootPath n =
     (case extractBigQueryDependencies h defaultProjectId rootPath n of
        Inl err \<Rightarrow> Inl err
      | Inr deps \<Rightarrow>
          (case extractBigQueryDestinations h defaultProjectId rootPath n of
             Inl err \<Rightarrow> Inl err
           | Inr dsts \<Rightarrow>
               Inr \<lparr>job_file = n,
                    namespace = path2bq h n rootPath defaultProjectId,
                    dependencies = filter (\<lambda>d. d \<noteq> path2bq h d rootPath defaultProjectId) deps,
                    destinations = dsts\<rparr>))"

text \<open>The relation set: a set of JSON strings in the source, a duplicate-free list of pairs here.\<close>

definition add_job_relations :: "BigQueryJobResource \<Rightarrow> relation list \<Rightarrow> relation list" where
  "add_job_relations r ret =
     fold (\<lambda>dst acc.
             fold (\<lambda>src acc'. set_add (dst, src) acc')
                  (filter (\<lambda>s. s \<notin> set (destinations r)) (dependencies r))
                  (set_add (dst, ''#sentinal'') acc))
          (destinations r)
          (set_add (namespace r, ''#sentinal'') ret)"

definition relations_of :: "BigQueryJobResource list \<Rightarrow> relation list" where
  "relations_of results = filter (\<lambda>(src, dst). src \<noteq> dst) (fold add_job_relations results [])"

definition bigquery2Objs :: "BigQueryJobResource list \<Rightarrow> (string \<times> BigQueryJobResource list) list" where
  "bigquery2Objs results =
     fold (\<lambda>obj ret.
             map_set (namespace obj)
               ((case map_of ret (namespace obj) of None \<Rightarrow> [] | Some js \<Rightarrow> js) @ [obj]) ret)
          results []"

text \<open>
  A task of the DAG: the \<^verbatim>\<open>Task\<close>, and what its closure captured (\<^verbatim>\<open>job\<close>, \<^verbatim>\<open>ns\<close>,
  \<^verbatim>\<open>ix\<close>). Of the closure's own progress: \<open>awaited\<close> are the promises it handed to
  \<^verbatim>\<open>Promise.all\<close> when it was invoked (the tasks whose \<^verbatim>\<open>runningPromise\<close> was defined
  then; an undefined entry is not waited for), \<open>deploying\<close> says that it has called
  \<^verbatim>\<open>deployBigQueryResouce\<close>.
\<close>

record planned_task =
  p_task :: "string task"
  p_job :: BigQueryJobResource
  p_ns :: string
  p_ix :: nat
  awaited :: "nat list option"
  deploying :: bool

definition new_task ::
  "host \<Rightarrow> string \<Rightarrow> string \<Rightarrow> string \<Rightarrow> BigQueryJobResource \<times> nat \<Rightarrow> planned_task" where
  "new_task h defaultProjectId rootPath ns jx =
     \<lparr>p_task = Task (replace_first ''@default'' defaultProjectId
                        (relative_name h rootPath (job_file (fst jx)))),
      p_job = fst jx, p_ns = ns, p_ix = snd jx, awaited = None, deploying = False\<rparr>"

definition plan_dag ::
  "host \<Rightarrow> string \<Rightarrow> string \<Rightarrow> BigQueryJobResource list
     \<Rightarrow> error + (string \<times> planned_task list) list" where
  "plan_dag h defaultProjectId rootPath results =
     (case topologicalSort (relations_of results) of
        Inl e \<Rightarrow> Inl e
      | Inr order \<Rightarrow>
          Inr (map (\<lambda>(ns, jobs).
                      (ns, map (new_task h defaultProjectId rootPath ns) (zip jobs [0..<length jobs])))
                 (filter (\<lambda>(ns, jobs). 0 < length jobs)
                    (map (\<lambda>bq. (bq, case map_of (bigquery2Objs results) bq of
                                         None \<Rightarrow> [] | Some js \<Rightarrow> js))
                         order))))"

subsection \<open>Running the tasks\<close>

text \<open>
  The tasks in the order of the DAG, as \<^verbatim>\<open>[...DAG.values()].map(...).flat()\<close> lists them
  and hands them to the limiter; a task is known by its position. \<open>calls\<close> lists the
  files for which the deploy executor was invoked.
\<close>

record system =
  tasks :: "planned_task list"
  calls :: "string list"
  concurrency :: nat

definition init_system :: "nat \<Rightarrow> (string \<times> planned_task list) list \<Rightarrow> system" where
  "init_system c dag = \<lparr>tasks = concat (map snd dag), calls = [], concurrency = c\<rparr>"

text \<open>\<^verbatim>\<open>DAG.get(d)?.tasks\<close>, as positions.\<close>

definition node_tasks :: "string \<Rightarrow> planned_task list \<Rightarrow> nat list" where
  "node_tasks d ts = filter (\<lambda>j. p_ns (ts ! j) = d) [0..<length ts]"

text \<open>The tasks whose \<^verbatim>\<open>runningPromise\<close> the closure of task \<open>i\<close> reads: every task of every
  node among its own file's dependencies, and the first \<^verbatim>\<open>ix\<close> tasks of its own node.\<close>

definition predecessors :: "planned_task list \<Rightarrow> nat \<Rightarrow> nat list" where
  "predecessors ts i =
     concat (map (\<lambda>d. node_tasks d ts) (dependencies (p_job (ts ! i))))
     @ take (p_ix (ts ! i)) (node_tasks (p_ns (ts ! i)) ts)"

definition awaits_of :: "planned_task list \<Rightarrow> nat \<Rightarrow> nat list" where
  "awaits_of ts i = filter (\<lambda>j. runningPromise (p_task (ts ! j)) \<noteq> None) (predecessors ts i)"

definition is_rejected :: "'a promise option \<Rightarrow> bool" where
  "is_rejected p = (case p of Some (Settled (Rejected r)) \<Rightarrow> True | _ \<Rightarrow> False)"

definition is_fulfilled :: "'a promise option \<Rightarrow> bool" where
  "is_fulfilled p = (case p of Some (Settled (Resolved v)) \<Rightarrow> True | _ \<Rightarrow> False)"

text \<open>The message of the \<^verbatim>\<open>catch\<close> handler: the failed tasks of the dependency nodes.\<close>

definition suspended_message :: "planned_task list \<Rightarrow> nat \<Rightarrow> string" where
  "suspended_message ts i =
     ''Suspended: Parent job is faild: '' @
     join '', ''
       (map (\<lambda>j. name (p_task (ts ! j)))
          (filter (\<lambda>j. status (p_task (ts ! j)) = Failed)
             (concat (map (\<lambda>d. node_tasks d ts) (dependencies (p_job (ts ! i)))))))"

text \<open>
  The steps of a run. \<open>Start i\<close>: the limiter invokes \<^verbatim>\<open>task.run()\<close>, in the order of
  submission and at most \<open>concurrency\<close> at a time; the job is an \<^verbatim>\<open>async\<close> closure, so
  its call returns a promise, and the closure collects the promises it waits for. \<open>Suspend i\<close>: one of them has rejected, \<^verbatim>\<open>Promise.all\<close> rejects and the
  closure throws. \<open>DeployBegin i\<close>: all of them are fulfilled and the closure calls
  \<^verbatim>\<open>deployBigQueryResouce\<close>. \<open>DeployEnd i oc\<close>: that call settles with \<open>oc\<close>.
\<close>

datatype action = Start nat | Suspend nat | DeployBegin nat | DeployEnd nat "string outcome"

definition set_task :: "nat \<Rightarrow> planned_task \<Rightarrow> system \<Rightarrow> system" where
  "set_task i t st = st\<lparr>tasks := (tasks st)[i := t]\<rparr>"

fun sys_step :: "action \<Rightarrow> system \<Rightarrow> system option" where
  "sys_step (Start i) st =
     (let ts = tasks st in
      if i < length ts \<and> status (p_task (ts ! i)) = Pending
         \<and> list_all (\<lambda>t. status (p_task t) \<noteq> Pending) (take i ts)
         \<and> length (filter (\<lambda>t. status (p_task t) = Running) ts) < concurrency st
      then Some (set_task i ((ts ! i)\<lparr>p_task := run ReturnsPromise (p_task (ts ! i)),
                                    awaited := Some (awaits_of ts i)\<rparr>) st)
      else None)"
| "sys_step (Suspend i) st =
     (let ts = tasks st in
      if i < length ts \<and> status (p_task (ts ! i)) = Running \<and> \<not> deploying (ts ! i) then
        (case awaited (ts ! i) of
           None \<Rightarrow> None
         | Some aw \<Rightarrow>
             if list_ex (\<lambda>j. is_rejected (runningPromise (p_task (ts ! j)))) aw
             then Some (set_task i
                    ((ts ! i)\<lparr>p_task := settle (Rejected (ErrorObject (suspended_message ts i)))
                                          (p_task (ts ! i))\<rparr>) st)
             else None)
      else None)"
| "sys_step (DeployBegin i) st =
     (let ts = tasks st in
      if i < length ts \<and> status (p_task (ts ! i)) = Running \<and> \<not> deploying (ts ! i) then
        (case awaited (ts ! i) of
           None \<Rightarrow> None
         | Some aw \<Rightarrow>
             if list_all (\<lambda>j. is_fulfilled (runningPromise (p_task (ts ! j)))) aw
             then Some ((set_task i ((ts ! i)\<lparr>deploying := True\<rparr>) st)
                          \<lparr>calls := calls st @ [job_file (p_job (ts ! i))]\<rparr>)
             else None)
      else None)"
| "sys_step (DeployEnd i oc) st =
     (let ts = tasks st in
      if i < length ts \<and> status (p_task (ts ! i)) = Running \<and> deploying (ts ! i)
      then Some (set_task i ((ts ! i)\<lparr>p_task := settle oc (p_task (ts ! i))\<rparr>) st)
      else None)"

fun run_actions :: "action list \<Rightarrow> system \<Rightarrow> system option" where
  "run_actions [] st = Some st"
| "run_actions (a # as) st = (case sys_step a st of None \<Rightarrow> None | Some st' \<Rightarrow> run_actions as st')"

text \<open>A task as the planner creates it.\<close>

definition fresh :: "planned_task \<Rightarrow> bool" where
  "fresh t = (status (p_task t) = Pending \<and> runningPromise (p_task t) = None \<and>
              awaited t = None \<and> \<not> deploying t)"


section \<open>The deploy executor (deployBigQueryResouce, src/unnamed/part_001)\<close>

text \<open>
  The warehouse client. Each operation answers \<open>Inr\<close> with its result or \<open>Inl\<close> with the
  message of the error it rejects with. Numbers are JavaScript doubles and are not
  modelled: \<^verbatim>\<open>parseInt\<close> and \<^verbatim>\<open>humanFileSize\<close> are parameters over an abstract type of
  numbers. \<open>job_tail\<close> stands for what the default branch does after a job that is not
  answered as a dry run (\<^verbatim>\<open>fetchBQJobResource\<close>, the metadata, the statistics).
\<close>

record query_options =
  dryRun :: "bool option"
  labels :: "(string \<times> string) list"

record query_config =
  cfg_dryRun :: "bool option"
  cfg_query :: string
  cfg_priority :: string
  cfg_jobPrefix :: string
  cfg_labels :: "(string \<times> string) list"

record job_metadata =
  totalBytesProcessed :: "string option"
  configuration_dryRun :: bool

datatype call =
    CreateQueryJob query_config
  | TableExists string string
  | TableGet string string
  | CreateTable string string string
  | SyncMetadata string string

record 'n warehouse =
  getProjectId :: string
  createQueryJob :: "query_config \<Rightarrow> string + job_metadata"
  table_exists :: "string \<Rightarrow> string \<Rightarrow> string + bool"
  table_get :: "string \<Rightarrow> string \<Rightarrow> string + string"
  createTable :: "string \<Rightarrow> string \<Rightarrow> string \<Rightarrow> string + string"
  syncMetadata :: "string \<Rightarrow> string \<Rightarrow> string + unit"
  job_tail :: "query_config \<Rightarrow> call list \<times> (string + string option)"
  parseInt :: "string \<Rightarrow> 'n"
  humanFileSize :: "'n \<Rightarrow> string"

text \<open>What a run of the executor did and gave: the calls that reached the warehouse, in
  order, and the returned message (\<open>None\<close> is \<^verbatim>\<open>undefined\<close>) or the error thrown.\<close>

type_synonym 'a io = "call list \<times> (string + 'a)"

definition rpc :: "call \<Rightarrow> string + 'a \<Rightarrow> 'a io" where
  "rpc c r = ([c], r)"

definition and_then :: "'a io \<Rightarrow> ('a \<Rightarrow> 'b io) \<Rightarrow> 'b io" where
  "and_then m f =
     (case m of
        (cs, Inl e) \<Rightarrow> (cs, Inl e)
      | (cs, Inr a) \<Rightarrow> (case f a of (cs', r) \<Rightarrow> (cs @ cs', r)))"

definition falsy :: "string option \<Rightarrow> bool" where
  "falsy s = (s = None \<or> s = Some [])"

definition str_of :: "string option \<Rightarrow> string" where
  "str_of s = (case s of None \<Rightarrow> ''undefined'' | Some v \<Rightarrow> v)"

definition job_config :: "query_options option \<Rightarrow> string \<Rightarrow> string \<Rightarrow> string option \<Rightarrow> query_config" where
  "job_config opts q schemaId nm =
     \<lparr>cfg_dryRun = (case opts of None \<Rightarrow> None | Some ob \<Rightarrow> dryRun ob),
      cfg_query = q,
      cfg_priority = ''BATCH'',
      cfg_jobPrefix = ''bqport-'' @ schemaId @ ''_'' @ str_of nm @ ''-'',
      cfg_labels = map_set ''bqport'' ''true'' (case opts of None \<Rightarrow> [] | Some ob \<Rightarrow> labels ob)\<rparr>"

text \<open>The rest of the \<^verbatim>\<open>view.sql\<close> branch, after the dry-run block.\<close>

definition apply_view :: "'n warehouse \<Rightarrow> string \<Rightarrow> string \<Rightarrow> string \<Rightarrow> string \<Rightarrow> (string option) io" where
  "apply_view w schemaId tableId q p =
     and_then (rpc (TableExists schemaId tableId) (table_exists w schemaId tableId)) (\<lambda>isExist.
     and_then (if isExist then rpc (TableGet schemaId tableId) (table_get w schemaId tableId)
               else rpc (CreateTable schemaId tableId q) (createTable w schemaId tableId q)) (\<lambda>view.
     and_then (rpc (SyncMetadata view (dirname p)) (syncMetadata w view (dirname p))) (\<lambda>u.
     ([], Inr None))))"

definition view_query :: "string \<Rightarrow> string \<Rightarrow> string \<Rightarrow> string" where
  "view_query schemaId tableId q =
     ''CREATE OR REPLACE VIEW '' @ [CHR 0x60] @ schemaId @ ''.'' @ tableId @ [CHR 0x60] @ '' as'' @
     [CHR 0x0A] @ q"

definition deployBigQueryResouce ::
  "host \<Rightarrow> 'n warehouse \<Rightarrow> string \<Rightarrow> string \<Rightarrow> query_options option \<Rightarrow> (string option) io" where
  "deployBigQueryResouce h w rootPath p BigQueryJobOptions =
     (if p \<noteq> [] \<and> \<not> endsWith p ''sql'' then ([], Inr None)
      else
        let parts = split_on CHR ''.'' (path2bq h p rootPath (getProjectId w));
            schemaId = nth_opt parts 1;
            nm = nth_opt parts 2
        in case readFile h p of
             Inl err \<Rightarrow> ([], Inl (dirname p @ '': '' @ err))
           | Inr q \<Rightarrow>
               if falsy schemaId then ([], Inl ''Invalid SchemaId'')
               else if basename p = ''view.sql'' then
                 (if falsy nm then ([], Inr None)
                  else if (case BigQueryJobOptions of None \<Rightarrow> False | Some ob \<Rightarrow> dryRun ob = Some True)
                  then
                    (let cfg = job_config BigQueryJobOptions
                                 (view_query (the schemaId) (the nm) q) (the schemaId) nm
                     in and_then (rpc (CreateQueryJob cfg) (createQueryJob w cfg)) (\<lambda>ret.
                          case totalBytesProcessed ret of
                            Some b \<Rightarrow> ([], Inr (Some (humanFileSize w (parseInt w b))))
                          | None \<Rightarrow> apply_view w (the schemaId) (the nm) q p))
                  else apply_view w (the schemaId) (the nm) q p)
               else
                 (let cfg = job_config BigQueryJobOptions q (the schemaId) nm
                  in and_then (rpc (CreateQueryJob cfg) (createQueryJob w cfg)) (\<lambda>ijob.
                       case (configuration_dryRun ijob, totalBytesProcessed ijob) of
                         (True, Some b) \<Rightarrow> ([], Inr (Some (humanFileSize w (parseInt w b))))
                       | _ \<Rightarrow> job_tail w cfg)))"

section \<open>The reconciliation planner (cleanupBigQueryDataset, src/unnamed/part_000)\<close>

text \<open>A remote routine, model or table: the name of its class and its reference.\<close>

record resource =
  constructor_name :: string
  ref_projectId :: string
  ref_datasetId :: string
  ref_id :: string

text \<open>The listing of a dataset, taken to succeed (when a listing rejects, the function
  rejects and emits no task); \<open>dataset_get\<close> says whether the dataset can be fetched.\<close>

record remote =
  dataset_get :: "string \<Rightarrow> string \<Rightarrow> bool"
  getRoutines :: "resource list"
  getModels :: "resource list"
  getTables :: "resource list"

record cleanup_options =
  opt_dryRun :: "bool option"
  withoutConrimation :: bool

text \<open>A deletion task: its name and what its closure captured.\<close>

record deletion_task =
  d_name :: string
  d_isDryRun :: bool
  d_bqId :: string
  d_resource :: resource

definition resource_map :: "resource list \<Rightarrow> (string \<times> resource) list" where
  "resource_map rr =
     fold (\<lambda>r m. map_set (ref_projectId r @ ''.'' @ ref_datasetId r @ ''.'' @ ref_id r) r m) rr []"

type_synonym inventory =
  "(string \<times> resource) list \<times> (string \<times> resource) list \<times> (string \<times> resource) list"

text \<open>The callback of \<^verbatim>\<open>forEach\<close> over the local paths; the inventory is
  \<open>(routines, models, tables)\<close>.\<close>

definition forget_local :: "host \<Rightarrow> string \<Rightarrow> string \<Rightarrow> string \<Rightarrow> inventory \<Rightarrow> inventory" where
  "forget_local h defaultProjectId rootDir f kinds =
     (case kinds of (routines, models, tables) \<Rightarrow>
        let bqId = path2bq h f rootDir defaultProjectId in
        if includes_str f ''@routine'' \<and> map_has routines bqId
          then (map_delete bqId routines, models, tables)
        else if includes_str f ''@model'' \<and> map_has models bqId
          then (routines, map_delete bqId models, tables)
        else if map_has tables bqId then (routines, models, map_delete bqId tables)
        else (routines, models, tables))"

definition prompt_text :: "string \<Rightarrow> string list \<Rightarrow> string" where
  "prompt_text resourceType ks =
     join [CHR 0x0A]
       [''Found BigQuery reousrces with no local files. Do you delete these resources? (y/n)'',
        ''['' @ resourceType @ ''s]'',
        ''  '' @ join ([CHR 0x0A] @ ''  '') ks @ '' '',
        ''Ans>'']"

text \<open>One round of the loop over \<^verbatim>\<open>[tables, routines, models]\<close>.\<close>

definition kind_tasks ::
  "host \<Rightarrow> string \<Rightarrow> string \<Rightarrow> bool \<Rightarrow> bool \<Rightarrow> (string \<times> resource) list \<Rightarrow> deletion_task list" where
  "kind_tasks h nsProject datasetId isDryRun isForce kind =
     (case kind of
        [] \<Rightarrow> []
      | first # rest \<Rightarrow>
          let resourceType = constructor_name (snd first) in
          if \<not> isForce \<and> \<not> isDryRun \<and>
             \<not> startsWith (trim (prompt h (prompt_text resourceType (map fst kind)))) ''y''
          then []
          else map (\<lambda>(bqId, r).
                      \<lparr>d_name = join ''/'' [nsProject, datasetId, ''(DELETE)'',
                                 toUpperCase resourceType, last (split_on CHR ''.'' bqId)],
                       d_isDryRun = isDryRun, d_bqId = bqId, d_resource = r\<rparr>)
                   kind)"

definition cleanupBigQueryDataset ::
  "host \<Rightarrow> remote \<Rightarrow> string \<Rightarrow> string \<Rightarrow> string \<Rightarrow> string \<Rightarrow> cleanup_options option
     \<Rightarrow> deletion_task list" where
  "cleanupBigQueryDataset h bq defaultProjectId rootDir projectId datasetId options =
     (let nsProject = (if projectId \<noteq> ''@default'' then projectId else defaultProjectId);
          datasetPath = path_join [rootDir, projectId, datasetId]
      in if \<not> existsSync h datasetPath then []
         else if \<not> dataset_get bq datasetId nsProject then []
         else
           case fold (forget_local h defaultProjectId rootDir)
                  (filter (\<lambda>p. includes_str p ''@default'') (walk h datasetPath))
                  (resource_map (getRoutines bq), resource_map (getModels bq),
                   resource_map (getTables bq)) of
             (routines, models, tables) \<Rightarrow>
               let isDryRun = (case options of None \<Rightarrow> True
                               | Some ob \<Rightarrow> (case opt_dryRun ob of None \<Rightarrow> True | Some b \<Rightarrow> b));
                   isForce = (case options of None \<Rightarrow> False | Some ob \<Rightarrow> withoutConrimation ob)
               in concat (map (kind_tasks h nsProject datasetId isDryRun isForce)
                            [tables, routines, models]))"

text \<open>
  The closure of a deletion task, run against a warehouse in which \<^verbatim>\<open>resource.delete()\<close>
  resolves (\<open>delete_ok\<close>) or rejects: the lines it logs, the resources whose
  \<^verbatim>\<open>delete\<close> it calls, and how its promise settles. The \<^verbatim>\<open>try\<close> block catches a
  rejected \<^verbatim>\<open>delete\<close>; the closure returns \<^verbatim>\<open>{ isDryRun }\<close> either way.
\<close>

definition deletion_job ::
  "(resource \<Rightarrow> bool) \<Rightarrow> deletion_task \<Rightarrow> string list \<times> resource list \<times> bool outcome" where
  "deletion_job delete_ok t =
     (let line = (if d_isDryRun t then ''(DRYRUN) '' else []) @ ''Deleting '' @ d_bqId t
      in if \<not> d_isDryRun t
         then (if delete_ok (d_resource t)
               then ([line], [d_resource t], Resolved (Some (d_isDryRun t)))
               else ([line], [d_resource t], Resolved (Some (d_isDryRun t))))
         else ([line], [], Resolved (Some (d_isDryRun t))))"

subsection \<open>Vocabulary for the properties of tasks and of the cleanup\<close>

text \<open>What every reachable task satisfies: a promise in flight belongs to a running task,
  and a task that has not ended has stored no error text.\<close>

definition task_inv :: "'a task \<Rightarrow> bool" where
  "task_inv t =
     ((runningPromise t = Some Unsettled \<longrightarrow> status t = Running) \<and>
      (status t = Pending \<or> status t = Running \<longrightarrow> error t = None))"

definition effective_dryRun :: "cleanup_options option \<Rightarrow> bool" where
  "effective_dryRun options =
     (case options of None \<Rightarrow> True
      | Some ob \<Rightarrow> (case opt_dryRun ob of None \<Rightarrow> True | Some b \<Rightarrow> b))"

section \<open>Concrete hosts and warehouses\<close>

text \<open>A warehouse over natural numbers: a dry run is answered without statistics, no
  table exists.\<close>

definition silent_warehouse :: "nat warehouse" where
  "silent_warehouse =
     \<lparr>getProjectId = ''p'',
      createQueryJob = (\<lambda>c. Inr \<lparr>totalBytesProcessed = None, configuration_dryRun = True\<rparr>),
      table_exists = (\<lambda>d t. Inr False),
      table_get = (\<lambda>d t. Inr (d @ ''.'' @ t)),
      createTable = (\<lambda>d t q. Inr (d @ ''.'' @ t)),
      syncMetadata = (\<lambda>r d. Inr ()),
      job_tail = (\<lambda>c. ([], Inr None)),
      parseInt = (\<lambda>s. length s),
      humanFileSize = (\<lambda>n. ''0B'')\<rparr>"

text \<open>Modelled from the spec: \<open>path2id\<close> of section 4.1 (\<^verbatim>\<open>path2bq\<close>, imported from
  \<^verbatim>\<open>src/bigquery.js\<close>, is not among the sources). Strip the root, split, drop the file
  name, substitute \<^verbatim>\<open>@default\<close>, skip the \<^verbatim>\<open>@routines\<close> and \<^verbatim>\<open>@models\<close> segments, and
  join with dots.\<close>

definition path2id_spec :: "string \<Rightarrow> string \<Rightarrow> string \<Rightarrow> string" where
  "path2id_spec fpath rootPath defaultProject =
     (let rel = (if startsWith fpath (rootPath @ ''/'') then drop (length rootPath + 1) fpath
                 else fpath);
          dirs = butlast (split_on CHR ''/'' rel)
      in join ''.''
           (map (\<lambda>s. if s = ''@default'' then defaultProject else s)
              (filter (\<lambda>s. s \<noteq> ''@routines'' \<and> s \<noteq> ''@models'') dirs)))"

text \<open>Modelled from the spec: \<open>normalize\<close> of section 4.1 (\<^verbatim>\<open>normalizedBQPath\<close>, imported from
  \<^verbatim>\<open>src/bigquery.js\<close>, is not among the sources). Three dotted segments, a missing
  project padded with the ambient one; two for a schema-only reference.\<close>

definition normalize_spec :: "string \<Rightarrow> string option \<Rightarrow> bool \<Rightarrow> string" where
  "normalize_spec ident ambientProject isSchemaOnly =
     (let parts = split_on CHR ''.'' (filter (\<lambda>c. c \<noteq> CHR 0x60) ident);
          n = (if isSchemaOnly then 2 else 3);
          padded = (if length parts < n then str_of ambientProject # parts else parts)
      in join ''.'' (take n padded))"

text \<open>A host with the two functions above, in which every file reads as a statement that
  refers to \<^verbatim>\<open>ds.tbl\<close> and creates it.\<close>

definition spec_host :: host where
  "spec_host =
     \<lparr>path2bq = path2id_spec,
      normalizedBQPath = normalize_spec,
      extractRefenrences = (\<lambda>q. [''ds.tbl'']),
      extractDestinations = (\<lambda>q. [(''ds.tbl'', ''TABLE'')]),
      readFile = (\<lambda>f. Inr ''SELECT 1''),
      existsSync = (\<lambda>f. True),
      walk = (\<lambda>d. []),
      prompt = (\<lambda>q. []),
      relative_name = (\<lambda>r f. if startsWith f (r @ ''/'') then drop (length r + 1) f else f)\<rparr>"

text \<open>The same warehouse, answering a dry run with zero bytes.\<close>

definition dry_warehouse :: "nat warehouse" where
  "dry_warehouse =
     silent_warehouse\<lparr>createQueryJob :=
       (\<lambda>c. Inr \<lparr>totalBytesProcessed = Some ''0'', configuration_dryRun = True\<rparr>)\<rparr>"

text \<open>The job that the dry run of \<^verbatim>\<open>ds/foo/view.sql\<close> with body \<^verbatim>\<open>SELECT 1\<close> submits.\<close>

definition foo_view_config :: query_config where
  "foo_view_config =
     \<lparr>cfg_dryRun = Some True, cfg_query = view_query ''ds'' ''foo'' ''SELECT 1'',
      cfg_priority = ''BATCH'', cfg_jobPrefix = ''bqport-ds_foo-'',
      cfg_labels = [(''bqport'', ''true'')]\<rparr>"



text \<open>Three tables: \<open>c\<close> reads \<open>a\<close> and \<open>b\<close>.\<close>

definition fan_jobs :: "BigQueryJobResource list" where
  "fan_jobs =
     [\<lparr>job_file = ''bigquery/@default/ds/a/ddl.sql'', namespace = ''p.ds.a'',
       dependencies = [''p.ds''], destinations = [''p.ds.a'']\<rparr>,
      \<lparr>job_file = ''bigquery/@default/ds/b/ddl.sql'', namespace = ''p.ds.b'',
       dependencies = [''p.ds''], destinations = [''p.ds.b'']\<rparr>,
      \<lparr>job_file = ''bigquery/@default/ds/c/ddl.sql'', namespace = ''p.ds.c'',
       dependencies = [''p.ds'', ''p.ds.a'', ''p.ds.b''], destinations = [''p.ds.c'']\<rparr>]"

text \<open>Two files in one directory.\<close>

definition sibling_jobs :: "BigQueryJobResource list" where
  "sibling_jobs =
     [\<lparr>job_file = ''bigquery/@default/ds/t/ddl.sql'', namespace = ''p.ds.t'',
       dependencies = [''p.ds''], destinations = [''p.ds.t'']\<rparr>,
      \<lparr>job_file = ''bigquery/@default/ds/t/test.sql'', namespace = ''p.ds.t'',
       dependencies = [''p.ds''], destinations = []\<rparr>]"

text \<open>The system that the planner sets up for a list of jobs, with eight threads.\<close>

definition planned_system :: "BigQueryJobResource list \<Rightarrow> system" where
  "planned_system results =
     (case plan_dag spec_host ''p'' ''bigquery'' results of
        Inl e \<Rightarrow> init_system 8 []
      | Inr dag \<Rightarrow> init_system 8 dag)"

text \<open>Of every task: its node, its name, its status, its error, what it awaits and whether
  it has called the executor.\<close>

definition snapshot ::
  "system \<Rightarrow> (string \<times> string \<times> status \<times> string option \<times> nat list option \<times> bool) list" where
  "snapshot st =
     map (\<lambda>t. (p_ns t, name (p_task t), status (p_task t), error (p_task t), awaited t, deploying t))
         (tasks st)"

text \<open>A dataset directory whose only local file defines the routine \<open>r1\<close>, while the
  remote dataset holds the routines \<open>r1\<close> and \<open>r2\<close>; the operator answers yes.\<close>

definition demo_host :: host where
  "demo_host =
     \<lparr>path2bq = (\<lambda>f r d. if f = ''bigquery/@default/ds/@routines/r1/ddl.sql'' then ''p.ds.r1'' else []),
      normalizedBQPath = (\<lambda>r p b. r),
      extractRefenrences = (\<lambda>q. []),
      extractDestinations = (\<lambda>q. []),
      readFile = (\<lambda>f. Inr []),
      existsSync = (\<lambda>f. True),
      walk = (\<lambda>d. [''bigquery/@default/ds/@routines/r1/ddl.sql'']),
      prompt = (\<lambda>q. '' yes''),
      relative_name = (\<lambda>r f. f)\<rparr>"

definition demo_remote :: remote where
  "demo_remote =
     \<lparr>dataset_get = (\<lambda>d p. True),
      getRoutines =
        [\<lparr>constructor_name = ''Routine'', ref_projectId = ''p'', ref_datasetId = ''ds'', ref_id = ''r1''\<rparr>,
         \<lparr>constructor_name = ''Routine'', ref_projectId = ''p'', ref_datasetId = ''ds'', ref_id = ''r2''\<rparr>],
      getModels = [],
      getTables = []\<rparr>"

definition r2_task :: "bool \<Rightarrow> deletion_task" where
  "r2_task dry =
     \<lparr>d_name = ''p/ds/(DELETE)/ROUTINE/r2'', d_isDryRun = dry, d_bqId = ''p.ds.r2'',
      d_resource = \<lparr>constructor_name = ''Routine'', ref_projectId = ''p'', ref_datasetId = ''ds'',
                    ref_id = ''r2''\<rparr>\<rparr>"

subsection \<open>What holds in every state of a run\<close>

text \<open>The status of a task and the state of its promise go together.\<close>

definition coherent :: "'a task \<Rightarrow> bool" where
  "coherent t =
     ((status t = Pending) = (runningPromise t = None) \<and>
      (status t = Running) = (runningPromise t = Some Unsettled) \<and>
      (status t = Success) = is_fulfilled (runningPromise t) \<and>
      (status t = Failed) = is_rejected (runningPromise t))"

text \<open>The invariant of a run: tasks start in order; a started task awaits every
  predecessor before it in the order; a task that deploys awaited only successes.\<close>

definition sys_inv :: "system \<Rightarrow> bool" where
  "sys_inv st =
     ((\<forall>i<length (tasks st). coherent (p_task (tasks st ! i))) \<and>
      (\<forall>i<length (tasks st). \<forall>j<i. status (p_task (tasks st ! i)) \<noteq> Pending \<longrightarrow>
           status (p_task (tasks st ! j)) \<noteq> Pending) \<and>
      (\<forall>i<length (tasks st). \<forall>aw. awaited (tasks st ! i) = Some aw \<longrightarrow>
           status (p_task (tasks st ! i)) \<noteq> Pending \<and>
           set aw \<subseteq> set (predecessors (tasks st) i) \<and>
           (\<forall>j\<in>set (predecessors (tasks st) i). j < i \<longrightarrow> j \<in> set aw)) \<and>
      (\<forall>i<length (tasks st). deploying (tasks st ! i) \<longrightarrow>
           (\<exists>aw. awaited (tasks st ! i) = Some aw \<and>
                 (\<forall>j\<in>set aw. j < length (tasks st) \<and> status (p_task (tasks st ! j)) = Success))))"


text \<open>How a task has ended: in success only after it deployed; failed without deploying
  only as suspended, its error text listing names of failed tasks of its dependency
  nodes.\<close>

definition ended_inv :: "system \<Rightarrow> bool" where
  "ended_inv st =
     (\<forall>i<length (tasks st).
        (status (p_task (tasks st ! i)) = Success \<longrightarrow> deploying (tasks st ! i)) \<and>
        (status (p_task (tasks st ! i)) = Failed \<and> \<not> deploying (tasks st ! i) \<longrightarrow>
           (\<exists>ks. error (p_task (tasks st ! i)) =
                   Some (trim (''Suspended: Parent job is faild: '' @
                               join '', '' (map (\<lambda>k. name (p_task (tasks st ! k))) ks))) \<and>
                 (\<forall>k\<in>set ks. k < length (tasks st) \<and>
                     status (p_task (tasks st ! k)) = Failed \<and>
                     p_ns (tasks st ! k) \<in> set (dependencies (p_job (tasks st ! i)))))))"

section \<open>Correctness of the sorting loop\<close>

lemma reduce_snoc: "reduce_relations (rs @ [r]) = add_relation r (reduce_relations rs)"
  by (simp add: reduce_relations_def)

lemma reduce_Nil: "reduce_relations [] = \<lparr>E = Map.empty, G = Map.empty, N = []\<rparr>"
  by (simp add: reduce_relations_def)

lemma set_set_add: "set (set_add x xs) = insert x (set xs)"
  by (auto simp: set_add_def)

lemma distinct_set_add: "distinct xs \<Longrightarrow> distinct (set_add x xs)"
  by (auto simp: set_add_def)

lemma add_relation_sel:
  "E (add_relation (a, b) st) = (E st)(a \<mapsto> 1 + getE (E st) a)"
  "G (add_relation (a, b) st) = (G st)(b \<mapsto> a # removeAll a (getG (G st) b))"
  "N (add_relation (a, b) st) = set_add a (set_add b (N st))"
  by (simp_all add: add_relation_def)

lemma reduce_N: "distinct (N (reduce_relations rs)) \<and> set (N (reduce_relations rs)) = nodes rs"
proof (induction rs rule: rev_induct)
  case Nil
  then show ?case by (simp add: reduce_Nil nodes_def)
next
  case (snoc r rs)
  obtain a b where r: "r = (a, b)" by (cases r)
  show ?case using snoc
    by (auto simp: reduce_snoc r add_relation_sel set_set_add distinct_set_add nodes_def)
qed

lemma getG_upd: "getG (g(d \<mapsto> v)) d' = (if d' = d then v else getG g d')"
  by (simp add: getG_def)

lemma getE_upd: "getE (e(x \<mapsto> k)) x' = (if x' = x then k else getE e x')"
  by (simp add: getE_def)

lemma reduce_G:
  "set (getG (G (reduce_relations rs)) d) = {a. (a, d) \<in> set rs} \<and> distinct (getG (G (reduce_relations rs)) d)"
proof (induction rs arbitrary: d rule: rev_induct)
  case Nil
  then show ?case by (simp add: reduce_Nil getG_def)
next
  case (snoc r rs)
  obtain a b where r: "r = (a, b)" by (cases r)
  have "getG (G (reduce_relations (rs @ [r]))) d =
          (if d = b then a # removeAll a (getG (G (reduce_relations rs)) b) else getG (G (reduce_relations rs)) d)"
    by (simp only: reduce_snoc r add_relation_sel getG_upd)
  then show ?case using snoc[of d] snoc[of b] by (auto simp: r distinct_removeAll)
qed

lemma reduce_E:
  "distinct rs \<Longrightarrow> getE (E (reduce_relations rs)) x = int (card {d. (x, d) \<in> set rs})"
proof (induction rs rule: rev_induct)
  case Nil
  then show ?case by (simp add: reduce_Nil getE_def)
next
  case (snoc r rs)
  obtain a b where r: "r = (a, b)" by (cases r)
  from snoc.prems have d: "distinct rs" and nin: "(a, b) \<notin> set rs" by (auto simp: r)
  have fin: "finite {d. (a, d) \<in> set rs}"
    by (rule finite_subset[of _ "snd ` set rs"]) (force, simp)
  have upd: "getE (E (reduce_relations (rs @ [r]))) x =
      (if x = a then 1 + getE (E (reduce_relations rs)) a else getE (E (reduce_relations rs)) x)"
    by (simp only: reduce_snoc r add_relation_sel getE_upd)
  show ?case
  proof (cases "x = a")
    case True
    have "{d. (a, d) \<in> set (rs @ [r])} = insert b {d. (a, d) \<in> set rs}"
      by (auto simp: r)
    moreover have "b \<notin> {d. (a, d) \<in> set rs}" using nin by simp
    ultimately have "card {d. (a, d) \<in> set (rs @ [r])} = Suc (card {d. (a, d) \<in> set rs})"
      using fin by simp
    then show ?thesis using snoc.IH[OF d] True upd by simp
  next
    case False
    have "{d. (x, d) \<in> set (rs @ [r])} = {d. (x, d) \<in> set rs}"
      using False by (auto simp: r)
    then show ?thesis using snoc.IH[OF d] False upd by simp
  qed
qed

lemma getE_fold_decrement:
  "distinct ds \<Longrightarrow> getE (fold decrement ds e) x = getE e x - (if x \<in> set ds then 1 else 0)"
  by (induction ds arbitrary: e) (auto simp: decrement_def getE_def)

lemma fold_set_delete: "fold set_delete ys xs = filter (\<lambda>x. x \<notin> set ys) xs"
  by (induction ys arbitrary: xs)
     (auto simp: set_delete_def removeAll_filter_not_eq intro: filter_cong)

lemma fold_set_delete_filter:
  "fold set_delete (filter P xs) xs = filter (\<lambda>x. \<not> P x) xs"
  unfolding fold_set_delete by (rule filter_cong) auto

lemma finite_outs: "finite (outs rs l x)"
  by (rule finite_subset[of _ "snd ` set rs"]) (force simp: outs_def, simp)

lemma kahn_inv_step:
  assumes inv: "kahn_inv rs g e n s l" and ne: "s \<noteq> []"
  defines "tgt \<equiv> last s"
  defines "e' \<equiv> fold decrement (getG g tgt) e"
  shows "kahn_inv rs g e' (filter (\<lambda>x. \<not> getE e' x \<le> 0) n)
           (rev (filter (\<lambda>x. getE e' x \<le> 0) n) @ butlast s) (l @ [tgt])"
proof -
  from ne have s: "s = butlast s @ [tgt]" by (simp add: tgt_def)
  from inv have dist: "distinct (l @ s @ n)" and un: "set l \<union> set s \<union> set n = nodes rs"
    and cnt: "\<And>x. getE e x = int (card (outs rs l x))"
    and zs: "\<And>x. x \<in> set s \<Longrightarrow> getE e x = 0"
    and ord: "\<And>a b. (a, b) \<in> set rs \<Longrightarrow> a \<in> set l \<Longrightarrow> appears_before b a l"
    and gset: "\<And>d. set (getG g d) = {a. (a, d) \<in> set rs}"
    and gdist: "\<And>d. distinct (getG g d)"
    by (auto simp: kahn_inv_def)
  have tgt_s: "tgt \<in> set s" using ne by (simp add: tgt_def)
  have tl: "tgt \<notin> set l" using dist tgt_s by auto
  have tn: "tgt \<notin> set n" using dist tgt_s by auto
  have "distinct (butlast s @ [tgt])" using dist s by simp
  then have tb: "tgt \<notin> set (butlast s)" by simp
  have "set s = set (butlast s @ [tgt])" using s by simp
  then have sb: "set s = insert tgt (set (butlast s))" by simp
  have e': "getE e' x = getE e x - (if (x, tgt) \<in> set rs then 1 else 0)" for x
    unfolding e'_def using getE_fold_decrement[OF gdist, of tgt e x] gset[of tgt] by simp
  have outs': "outs rs (l @ [tgt]) x = outs rs l x - {tgt}" for x
    by (auto simp: outs_def)
  have cnt': "getE e' x = int (card (outs rs (l @ [tgt]) x))" for x
  proof (cases "(x, tgt) \<in> set rs")
    case True
    then have "tgt \<in> outs rs l x" using tl by (simp add: outs_def)
    then have "card (outs rs l x - {tgt}) = card (outs rs l x) - 1" "0 < card (outs rs l x)"
      using finite_outs[of rs l x] by (auto simp: card_gt_0_iff)
    then show ?thesis using True by (simp add: e' cnt outs')
  next
    case False
    then have "tgt \<notin> outs rs l x" by (simp add: outs_def)
    then show ?thesis using False by (simp add: e' cnt outs')
  qed
  have nonneg: "0 \<le> getE e' x" for x by (simp add: cnt')
  have le: "getE e' x \<le> getE e x" for x by (simp add: e')
  show "kahn_inv rs g e' (filter (\<lambda>x. \<not> getE e' x \<le> 0) n)
           (rev (filter (\<lambda>x. getE e' x \<le> 0) n) @ butlast s) (l @ [tgt])"
    unfolding kahn_inv_def
  proof (intro conjI allI ballI impI)
    show "distinct ((l @ [tgt]) @ (rev (filter (\<lambda>x. getE e' x \<le> 0) n) @ butlast s) @
            filter (\<lambda>x. \<not> getE e' x \<le> 0) n)"
      using dist tl tn tb sb by (auto simp: distinct_butlast)
    show "set (l @ [tgt]) \<union> set (rev (filter (\<lambda>x. getE e' x \<le> 0) n) @ butlast s) \<union>
            set (filter (\<lambda>x. \<not> getE e' x \<le> 0) n) = nodes rs"
      using un sb by auto
    show "getE e' x = int (card (outs rs (l @ [tgt]) x))" for x by (rule cnt')
    show "getE e' x = 0" if "x \<in> set (rev (filter (\<lambda>x. getE e' x \<le> 0) n) @ butlast s)" for x
    proof -
      from that have "getE e' x \<le> 0 \<or> x \<in> set s" using sb by auto
      then have "getE e' x \<le> 0" using zs[of x] le[of x] by auto
      then show ?thesis using nonneg[of x] by simp
    qed
    show "0 < getE e' x" if "x \<in> set (filter (\<lambda>x. \<not> getE e' x \<le> 0) n)" for x
      using that by simp
    show "appears_before b a (l @ [tgt])" if ab: "(a, b) \<in> set rs" and a: "a \<in> set (l @ [tgt])" for a b
    proof (cases "a \<in> set l")
      case True
      then show ?thesis using ord[OF ab True]
        by (simp add: appears_before_def)
    next
      case False
      then have at: "a = tgt" using a by simp
      have "card (outs rs l tgt) = 0" using zs[OF tgt_s] cnt[of tgt] by simp
      then have "outs rs l tgt = {}" using finite_outs[of rs l tgt] by simp
      then have "b \<in> set l" using ab at by (auto simp: outs_def)
      moreover have "takeWhile (\<lambda>z. z \<noteq> tgt) (l @ [tgt]) = l" using tl
        by (subst takeWhile_append2) auto
      ultimately show ?thesis by (simp add: appears_before_def at)
    qed
    show "set (getG g d) = {a. (a, d) \<in> set rs}" for d by (rule gset)
    show "distinct (getG g d)" for d by (rule gdist)
  qed
qed


lemma kahn_last_nonempty:
  assumes "kahn_inv rs g e n s l" and "s \<noteq> []" and "[] \<notin> nodes rs"
  shows "last s \<noteq> []"
proof -
  have "last s \<in> set s" using assms(2) by simp
  then have "last s \<in> nodes rs" using assms(1) by (auto simp: kahn_inv_def)
  then show ?thesis using assms(3) by auto
qed

lemma kahn_loop_unfold:
  fixes g :: "string \<rightharpoonup> string list" and e :: "string \<rightharpoonup> int"
  assumes "s \<noteq> []" and "last s \<noteq> []" and "last s \<notin> set l"
  defines "e' \<equiv> fold decrement (getG g (last s)) e"
  shows "kahn_loop g e n s l =
           kahn_loop g e' (filter (\<lambda>x. \<not> getE e' x \<le> 0) n)
             (rev (filter (\<lambda>x. getE e' x \<le> 0) n) @ butlast s) (l @ [last s])"
  using assms(1,2,3)
  by (subst kahn_loop.simps)
     (simp add: Let_def e'_def fold_set_delete_filter fold_Cons_rev set_add_def)


lemma kahn_loop_inv:
  "[] \<notin> nodes rs \<Longrightarrow> kahn_inv rs g e n s l \<Longrightarrow> kahn_loop g e n s l = (ef, nf, lf) \<Longrightarrow>
     kahn_inv rs g ef nf [] lf"
proof (induction g e n s l rule: kahn_loop.induct)
  case (1 g e n s l)
  show ?case
  proof (cases "s = []")
    case True
    then have "kahn_loop g e n s l = (e, n, l)" by (subst kahn_loop.simps) simp
    then show ?thesis using "1.prems" True by simp
  next
    case ne: False
    have tne: "last s \<noteq> []" by (rule kahn_last_nonempty[OF "1.prems"(2) ne "1.prems"(1)])
    define e' where "e' = fold decrement (getG g (last s)) e"
    define ready where "ready = filter (\<lambda>x. getE e' x \<le> 0) n"
    have inv': "kahn_inv rs g e' (filter (\<lambda>x. \<not> getE e' x \<le> 0) n) (rev ready @ butlast s)
                  (l @ [last s])"
      using kahn_inv_step[OF "1.prems"(2) ne] by (simp add: e'_def ready_def)
    have "last s \<in> set s" using ne by simp
    then have tl: "last s \<notin> set l" using "1.prems"(2) by (auto simp: kahn_inv_def)
    have n': "fold set_delete ready n = filter (\<lambda>x. \<not> getE e' x \<le> 0) n"
      unfolding ready_def by (rule fold_set_delete_filter)
    have s': "fold (\<lambda>x ret. x # ret) ready (butlast s) = rev ready @ butlast s"
      by (simp add: fold_Cons_rev)
    have l': "set_add (last s) l = l @ [last s]" using tl by (simp add: set_add_def)
    have "kahn_loop g e' (filter (\<lambda>x. \<not> getE e' x \<le> 0) n) (rev ready @ butlast s) (l @ [last s])
            = (ef, nf, lf)"
      using "1.prems"(3) kahn_loop_unfold[OF ne tne tl, of g e n] by (simp add: e'_def ready_def)
    then show ?thesis
      using "1.IH"[OF ne refl refl tne refl e'_def ready_def refl refl] inv' "1.prems"(1)
      unfolding n' s' l' by blast
  qed
qed

lemma residual_has_successor:
  assumes inv: "kahn_inv rs g e n [] l" and y: "y \<in> set n"
  shows "\<exists>d \<in> set n. (y, d) \<in> set rs"
proof -
  from inv y have "0 < getE e y" and "getE e y = int (card (outs rs l y))"
    by (auto simp: kahn_inv_def)
  then have "outs rs l y \<noteq> {}" by auto
  then obtain d where d: "(y, d) \<in> set rs" "d \<notin> set l" by (auto simp: outs_def)
  then have "d \<in> nodes rs" by (force simp: nodes_def)
  then have "d \<in> set n" using inv d by (auto simp: kahn_inv_def)
  then show ?thesis using d by auto
qed

lemma residual_reaches_cycle:
  assumes inv: "kahn_inv rs g e n [] l" and x: "x \<in> set n"
  shows "reaches_cycle rs x"
proof -
  define Q where "Q = {m \<in> set n. (x, m) \<in> (set rs)\<^sup>*}"
  define R' where "R' = set rs \<inter> (Q \<times> Q)"
  have xQ: "x \<in> Q" using x by (simp add: Q_def)
  have "\<not> acyclic R'"
  proof
    assume "acyclic R'"
    moreover have "finite R'" by (simp add: R'_def)
    ultimately have "wf (R'\<inverse>)" by (simp add: finite_acyclic_wf_converse)
    from wfE_min[OF this xQ] obtain z where z: "z \<in> Q" "\<And>y. (y, z) \<in> R'\<inverse> \<Longrightarrow> y \<notin> Q"
      by blast
    from z(1) have zn: "z \<in> set n" and xz: "(x, z) \<in> (set rs)\<^sup>*" by (auto simp: Q_def)
    from residual_has_successor[OF inv zn] obtain d where d: "d \<in> set n" "(z, d) \<in> set rs"
      by auto
    then have "d \<in> Q" using xz by (auto simp: Q_def intro: rtrancl_into_rtrancl)
    moreover have "(d, z) \<in> R'\<inverse>" using d z(1) \<open>d \<in> Q\<close> by (simp add: R'_def)
    ultimately show False using z(2) by blast
  qed
  then obtain m where m: "(m, m) \<in> R'\<^sup>+" by (auto simp: acyclic_def)
  have "R' \<subseteq> set rs" by (auto simp: R'_def)
  then have mm: "(m, m) \<in> (set rs)\<^sup>+" using m trancl_mono by blast
  from m obtain z where "(m, z) \<in> R'" by (auto dest: tranclD)
  then have "m \<in> Q" by (simp add: R'_def)
  then have "(x, m) \<in> (set rs)\<^sup>*" by (simp add: Q_def)
  then show ?thesis using mm by (auto simp: reaches_cycle_def)
qed

lemma takeWhile_index_less:
  "y \<in> set (takeWhile (\<lambda>z. z \<noteq> m) l) \<Longrightarrow>
     length (takeWhile (\<lambda>z. z \<noteq> y) l) < length (takeWhile (\<lambda>z. z \<noteq> m) l)"
  by (induction l) (auto split: if_splits)

lemma sorted_closed:
  assumes inv: "kahn_inv rs g e n s l" and "(x, m) \<in> (set rs)\<^sup>*" and "x \<in> set l"
  shows "m \<in> set l"
  using assms(2,3)
proof (induction rule: rtrancl_induct)
  case base
  then show ?case by simp
next
  case (step y z)
  then have "appears_before z y l" using inv by (auto simp: kahn_inv_def)
  then show ?case by (auto simp: appears_before_def dest: set_takeWhileD)
qed

lemma sorted_descends:
  assumes inv: "kahn_inv rs g e n s l" and "(m, y) \<in> (set rs)\<^sup>+" and "m \<in> set l"
  shows "y \<in> set l \<and> length (takeWhile (\<lambda>z. z \<noteq> y) l) < length (takeWhile (\<lambda>z. z \<noteq> m) l)"
  using assms(2,3)
proof (induction rule: trancl_induct)
  case (base y)
  then have "appears_before y m l" using inv by (auto simp: kahn_inv_def)
  then show ?case by (auto simp: appears_before_def takeWhile_index_less dest: set_takeWhileD)
next
  case (step y z)
  then have yl: "y \<in> set l" by simp
  with step have "appears_before z y l" using inv by (auto simp: kahn_inv_def)
  then have "z \<in> set l \<and> length (takeWhile (\<lambda>u. u \<noteq> z) l) < length (takeWhile (\<lambda>u. u \<noteq> y) l)"
    by (auto simp: appears_before_def takeWhile_index_less dest: set_takeWhileD)
  then show ?case using step by auto
qed

lemma residual_set:
  assumes inv: "kahn_inv rs g e n [] l"
  shows "set n = {x \<in> nodes rs. reaches_cycle rs x}"
proof (intro equalityI subsetI)
  fix x assume "x \<in> set n"
  then show "x \<in> {x \<in> nodes rs. reaches_cycle rs x}"
    using residual_reaches_cycle[OF inv] inv by (auto simp: kahn_inv_def)
next
  fix x assume "x \<in> {x \<in> nodes rs. reaches_cycle rs x}"
  then have xn: "x \<in> nodes rs" and "reaches_cycle rs x" by auto
  then obtain m where m: "(x, m) \<in> (set rs)\<^sup>*" "(m, m) \<in> (set rs)\<^sup>+"
    by (auto simp: reaches_cycle_def)
  show "x \<in> set n"
  proof (rule ccontr)
    assume "x \<notin> set n"
    then have "x \<in> set l" using xn inv by (auto simp: kahn_inv_def)
    then have "m \<in> set l" using sorted_closed[OF inv m(1)] by simp
    then show False using sorted_descends[OF inv m(2)] by simp
  qed
qed

lemma acyclic_iff_no_reaches_cycle:
  "acyclic (set rs) \<longleftrightarrow> {x \<in> nodes rs. reaches_cycle rs x} = {}"
proof
  assume "acyclic (set rs)"
  then show "{x \<in> nodes rs. reaches_cycle rs x} = {}"
    by (auto simp: acyclic_def reaches_cycle_def)
next
  assume e: "{x \<in> nodes rs. reaches_cycle rs x} = {}"
  show "acyclic (set rs)"
    unfolding acyclic_def
  proof (intro allI notI)
    fix x assume x: "(x, x) \<in> (set rs)\<^sup>+"
    then obtain z where "(x, z) \<in> set rs" by (auto dest: tranclD)
    then have "x \<in> nodes rs" by (force simp: nodes_def)
    moreover have "reaches_cycle rs x" using x by (auto simp: reaches_cycle_def)
    ultimately show False using e by auto
  qed
qed

lemma initial_inv:
  assumes d: "distinct rs"
  defines "st \<equiv> reduce_relations rs"
  shows "kahn_inv rs (G st) (E st) (fold set_delete (filter (\<lambda>n. getE (E st) n = 0) (N st)) (N st))
           (filter (\<lambda>n. getE (E st) n = 0) (N st)) []"
proof -
  have n: "fold set_delete (filter (\<lambda>n. getE (E st) n = 0) (N st)) (N st)
            = filter (\<lambda>n. getE (E st) n \<noteq> 0) (N st)"
    by (rule fold_set_delete_filter)
  have o: "outs rs [] x = {d. (x, d) \<in> set rs}" for x by (simp add: outs_def)
  have c: "getE (E st) x = int (card (outs rs [] x))" for x
    unfolding o st_def by (rule reduce_E[OF d])
  show ?thesis
    unfolding n kahn_inv_def
  proof (intro conjI allI ballI impI)
    show "distinct ([] @ filter (\<lambda>n. getE (E st) n = 0) (N st) @ filter (\<lambda>n. getE (E st) n \<noteq> 0) (N st))"
      using reduce_N[of rs] by (auto simp: st_def)
    show "set [] \<union> set (filter (\<lambda>n. getE (E st) n = 0) (N st)) \<union>
            set (filter (\<lambda>n. getE (E st) n \<noteq> 0) (N st)) = nodes rs"
      using reduce_N[of rs] by (auto simp: st_def)
    show "getE (E st) x = int (card (outs rs [] x))" for x by (rule c)
    show "getE (E st) x = 0" if "x \<in> set (filter (\<lambda>n. getE (E st) n = 0) (N st))" for x
      using that by simp
    show "0 < getE (E st) x" if "x \<in> set (filter (\<lambda>n. getE (E st) n \<noteq> 0) (N st))" for x
      using that c[of x] by simp
    show "appears_before b a []" if "a \<in> set []" for a b :: string using that by simp
    show "set (getG (G st) d) = {a. (a, d) \<in> set rs}" for d using reduce_G[of rs d] by (simp add: st_def)
    show "distinct (getG (G st) d)" for d using reduce_G[of rs d] by (simp add: st_def)
  qed
qed

lemma topologicalSort_final:
  assumes d: "distinct rs" and ne: "[] \<notin> nodes rs"
  shows "\<exists>g e n l. kahn_inv rs g e n [] l \<and>
           topologicalSort rs =
             (if n \<noteq> [] then Inl (Error (''Cycle detected: '' @ join '', '' n)) else Inr l)"
proof -
  define st where "st = reduce_relations rs"
  define s where "s = filter (\<lambda>n. getE (E st) n = 0) (N st)"
  obtain ef nf lf where k: "kahn_loop (G st) (E st) (fold set_delete s (N st)) s [] = (ef, nf, lf)"
    by (cases "kahn_loop (G st) (E st) (fold set_delete s (N st)) s []") auto
  have "kahn_inv rs (G st) ef nf [] lf"
    using kahn_loop_inv[OF ne initial_inv[OF d] k[unfolded s_def st_def]] by (simp add: st_def)
  moreover have "topologicalSort rs =
      (if nf \<noteq> [] then Inl (Error (''Cycle detected: '' @ join '', '' nf)) else Inr lf)"
    using k by (simp add: topologicalSort_def Let_def reduce_relations_def[symmetric] st_def[symmetric] s_def[symmetric])
  ultimately show ?thesis by blast
qed


lemma topologicalSort_acyclic:
  assumes d: "distinct rs" and ne: "[] \<notin> nodes rs" and ac: "acyclic (set rs)"
  shows "\<exists>l. topologicalSort rs = Inr l \<and> distinct l \<and> set l = nodes rs \<and>
           (\<forall>(a, b) \<in> set rs. appears_before b a l)"
proof -
  from topologicalSort_final[OF d ne] obtain g e n l where
    inv: "kahn_inv rs g e n [] l" and
    r: "topologicalSort rs = (if n \<noteq> [] then Inl (Error (''Cycle detected: '' @ join '', '' n)) else Inr l)"
    by blast
  have "set n = {}" using residual_set[OF inv] ac acyclic_iff_no_reaches_cycle[of rs] by simp
  then have n: "n = []" by simp
  have "set l = nodes rs" "distinct l" using inv n by (auto simp: kahn_inv_def)
  moreover have "appears_before b a l" if "(a, b) \<in> set rs" for a b
  proof -
    have "a \<in> nodes rs" using that by (force simp: nodes_def)
    then show ?thesis using inv that \<open>set l = nodes rs\<close> by (auto simp: kahn_inv_def)
  qed
  ultimately show ?thesis using r n by auto
qed

lemma topologicalSort_cyclic:
  assumes d: "distinct rs" and ne: "[] \<notin> nodes rs" and ac: "\<not> acyclic (set rs)"
  shows "\<exists>n. topologicalSort rs = Inl (Error (''Cycle detected: '' @ join '', '' n)) \<and> distinct n \<and>
           set n = {x \<in> nodes rs. reaches_cycle rs x}"
proof -
  from topologicalSort_final[OF d ne] obtain g e n l where
    inv: "kahn_inv rs g e n [] l" and
    r: "topologicalSort rs = (if n \<noteq> [] then Inl (Error (''Cycle detected: '' @ join '', '' n)) else Inr l)"
    by blast
  have s: "set n = {x \<in> nodes rs. reaches_cycle rs x}" by (rule residual_set[OF inv])
  then have "set n \<noteq> {}" using ac acyclic_iff_no_reaches_cycle[of rs] by simp
  then have "n \<noteq> []" by auto
  moreover have "distinct n" using inv by (auto simp: kahn_inv_def)
  ultimately show ?thesis using r s by auto
qed

section \<open>Claims about the sorter\<close>

lemma acyclic_empty_rel: "acyclic {}"
  by (simp add: acyclic_def)


text \<open>
  Claim C1, as the code has it. The claim fails on a list that repeats an edge (\<open>E\<close> counts
  the repetition, \<open>G\<close> does not) and on a node named by the empty string (the loop
  breaks on it). For a duplicate-free list of edges whose nodes are non-empty strings and
  whose edge set is acyclic, \<open>topologicalSort\<close> returns an order that contains every node
  of the edges exactly once and in which, for every edge \<open>(from, to)\<close>, \<open>to\<close> comes
  before \<open>from\<close>.
\<close>

theorem topologicalSort_sorts:
  assumes "distinct rs" and "[] \<notin> nodes rs" and "acyclic (set rs)"
  shows "\<exists>l. topologicalSort rs = Inr l \<and> distinct l \<and> set l = nodes rs \<and>
           (\<forall>(a, b) \<in> set rs. appears_before b a l)"
  using assms by (rule topologicalSort_acyclic)

theorem topologicalSort_sorts_witness:
  "distinct [(''a'', ''b''), (''b'', ''c'')] \<and> [] \<notin> nodes [(''a'', ''b''), (''b'', ''c'')] \<and>
   acyclic (set [(''a'', ''b''), (''b'', ''c'')]) \<and>
   (\<exists>l. topologicalSort [(''a'', ''b''), (''b'', ''c'')] = Inr l \<and> distinct l \<and>
        set l = nodes [(''a'', ''b''), (''b'', ''c'')] \<and>
        (\<forall>(a, b) \<in> set [(''a'', ''b''), (''b'', ''c'')]. appears_before b a l))"
proof -
  have d: "distinct [(''a'', ''b''), (''b'', ''c'')]" by simp
  have n: "[] \<notin> nodes [(''a'', ''b''), (''b'', ''c'')]" by (simp add: nodes_def)
  have a: "acyclic (set [(''a'', ''b''), (''b'', ''c'')])" by (simp add: acyclic_empty_rel rtrancl_insert)
  show ?thesis using d n a topologicalSort_sorts[OF d n a] by blast
qed

theorem topologicalSort_sorts_counterexample:
  "acyclic (set [(''a'', ''b''), (''a'', ''b'')]) \<and>
   topologicalSort [(''a'', ''b''), (''a'', ''b'')] = Inl (Error ''Cycle detected: a'') \<and>
   acyclic (set [(''a'', [])]) \<and>
   topologicalSort [(''a'', [])] = Inl (Error ''Cycle detected: a'')"
proof -
  have "acyclic (set [(''a'', ''b''), (''a'', ''b'')])" by (simp add: acyclic_empty_rel)
  moreover have "topologicalSort [(''a'', ''b''), (''a'', ''b'')] = Inl (Error ''Cycle detected: a'')"
    by code_simp
  moreover have "acyclic (set [(''a'', [])])" by (simp add: acyclic_empty_rel)
  moreover have "topologicalSort [(''a'', [])] = Inl (Error ''Cycle detected: a'')"
    by code_simp
  ultimately show ?thesis by blast
qed

text \<open>
  Claim C2, as the code has it. For a duplicate-free list of edges whose nodes are
  non-empty strings, \<open>topologicalSort\<close> fails exactly when the edge set has a directed
  cycle, and then the error is \<^verbatim>\<open>Cycle detected:\<close> followed by the residual nodes, each
  once: the nodes from which a cycle can be reached.
\<close>

theorem topologicalSort_fails_iff_cycle:
  assumes "distinct rs" and "[] \<notin> nodes rs"
  shows "((\<exists>e. topologicalSort rs = Inl e) \<longleftrightarrow> \<not> acyclic (set rs)) \<and>
         (\<not> acyclic (set rs) \<longrightarrow>
            (\<exists>n. topologicalSort rs = Inl (Error (''Cycle detected: '' @ join '', '' n)) \<and>
                 distinct n \<and> set n = {x \<in> nodes rs. reaches_cycle rs x}))"
proof (cases "acyclic (set rs)")
  case True
  from topologicalSort_acyclic[OF assms True] show ?thesis using True by auto
next
  case False
  from topologicalSort_cyclic[OF assms False] show ?thesis using False by auto
qed

theorem topologicalSort_fails_iff_cycle_witness:
  "distinct [(''x'', ''y''), (''y'', ''x''), (''z'', ''x''), (''y'', ''w'')] \<and>
   [] \<notin> nodes [(''x'', ''y''), (''y'', ''x''), (''z'', ''x''), (''y'', ''w'')] \<and>
   \<not> acyclic (set [(''x'', ''y''), (''y'', ''x''), (''z'', ''x''), (''y'', ''w'')]) \<and>
   topologicalSort [(''x'', ''y''), (''y'', ''x''), (''z'', ''x''), (''y'', ''w'')]
     = Inl (Error ''Cycle detected: y, x, z'') \<and>
   (\<exists>n. topologicalSort [(''x'', ''y''), (''y'', ''x''), (''z'', ''x''), (''y'', ''w'')]
          = Inl (Error (''Cycle detected: '' @ join '', '' n)) \<and> distinct n \<and>
        set n = {x \<in> nodes [(''x'', ''y''), (''y'', ''x''), (''z'', ''x''), (''y'', ''w'')].
                   reaches_cycle [(''x'', ''y''), (''y'', ''x''), (''z'', ''x''), (''y'', ''w'')] x})"
proof -
  let ?rs = "[(''x'', ''y''), (''y'', ''x''), (''z'', ''x''), (''y'', ''w'')]"
  have d: "distinct ?rs" by simp
  have n: "[] \<notin> nodes ?rs" by (simp add: nodes_def)
  have e: "topologicalSort ?rs = Inl (Error ''Cycle detected: y, x, z'')" by code_simp
  from topologicalSort_fails_iff_cycle[OF d n] e show ?thesis using d n by auto
qed

theorem topologicalSort_fails_iff_cycle_counterexample:
  "acyclic (set [(''t'', ''u''), (''v'', ''u''), (''t'', ''u'')]) \<and>
   topologicalSort [(''t'', ''u''), (''v'', ''u''), (''t'', ''u'')] = Inl (Error ''Cycle detected: t'') \<and>
   distinct [(''v'', [])] \<and> acyclic (set [(''v'', [])]) \<and>
   topologicalSort [(''v'', [])] = Inl (Error ''Cycle detected: v'')"
proof -
  have "acyclic (set [(''t'', ''u''), (''v'', ''u''), (''t'', ''u'')])" by (simp add: acyclic_empty_rel rtrancl_insert)
  moreover have "topologicalSort [(''t'', ''u''), (''v'', ''u''), (''t'', ''u'')]
                   = Inl (Error ''Cycle detected: t'')"
    by code_simp
  moreover have "acyclic (set [(''v'', [])])" by (simp add: acyclic_empty_rel)
  moreover have "topologicalSort [(''v'', [])] = Inl (Error ''Cycle detected: v'')"
    by code_simp
  ultimately show ?thesis by simp
qed

text \<open>
  Claim C3, as the code has it. The claim fails: two lists with the same edge set can
  give different orders. For two duplicate-free lists with the same edge set (nodes
  non-empty), \<open>topologicalSort\<close> succeeds on both or fails on both. When it succeeds, both
  orders contain every node of the edges exactly once and place, for every edge
  \<open>(from, to)\<close>, \<open>to\<close> before \<open>from\<close>. When it fails, both errors name the same set of
  residual nodes, each once: the nodes from which a cycle can be reached.
\<close>

theorem topologicalSort_same_edge_set:
  assumes "distinct rs" and "distinct rs'" and "set rs = set rs'" and "[] \<notin> nodes rs"
  shows "(\<exists>l l'. topologicalSort rs = Inr l \<and> topologicalSort rs' = Inr l' \<and>
                  distinct l \<and> distinct l' \<and> set l = nodes rs \<and> set l' = nodes rs \<and>
                  (\<forall>(a, b) \<in> set rs. appears_before b a l \<and> appears_before b a l')) \<or>
         (\<exists>n n'. topologicalSort rs = Inl (Error (''Cycle detected: '' @ join '', '' n)) \<and>
                  topologicalSort rs' = Inl (Error (''Cycle detected: '' @ join '', '' n')) \<and>
                  distinct n \<and> distinct n' \<and> set n = {x \<in> nodes rs. reaches_cycle rs x} \<and>
                  set n' = {x \<in> nodes rs. reaches_cycle rs x})"
proof -
  have nd: "nodes rs' = nodes rs" using assms(3) by (simp add: nodes_def)
  then have ne': "[] \<notin> nodes rs'" using assms(4) by simp
  have rc: "reaches_cycle rs' = reaches_cycle rs"
    using assms(3) by (simp add: reaches_cycle_def fun_eq_iff)
  show ?thesis
  proof (cases "acyclic (set rs)")
    case True
    then have "acyclic (set rs')" using assms(3) by simp
    from topologicalSort_acyclic[OF assms(1,4) True] obtain l where
      l: "topologicalSort rs = Inr l" "distinct l" "set l = nodes rs"
         "\<forall>(a, b) \<in> set rs. appears_before b a l"
      by blast
    from topologicalSort_acyclic[OF assms(2) ne' \<open>acyclic (set rs')\<close>] obtain l' where
      l': "topologicalSort rs' = Inr l'" "distinct l'" "set l' = nodes rs'"
          "\<forall>(a, b) \<in> set rs'. appears_before b a l'"
      by blast
    have "\<forall>(a, b) \<in> set rs. appears_before b a l \<and> appears_before b a l'"
      using l(4) l'(4) assms(3) by auto
    then show ?thesis using l(1,2,3) l'(1,2,3) nd by auto
  next
    case False
    then have "\<not> acyclic (set rs')" using assms(3) by simp
    from topologicalSort_cyclic[OF assms(1,4) False] obtain n where
      n: "topologicalSort rs = Inl (Error (''Cycle detected: '' @ join '', '' n))" "distinct n"
         "set n = {x \<in> nodes rs. reaches_cycle rs x}"
      by blast
    from topologicalSort_cyclic[OF assms(2) ne' \<open>\<not> acyclic (set rs')\<close>] obtain n' where
      n': "topologicalSort rs' = Inl (Error (''Cycle detected: '' @ join '', '' n'))" "distinct n'"
          "set n' = {x \<in> nodes rs'. reaches_cycle rs' x}"
      by blast
    have "set n' = {x \<in> nodes rs. reaches_cycle rs x}" using n'(3) nd rc by simp
    then show ?thesis using n n'(1,2) by blast
  qed
qed

theorem topologicalSort_same_edge_set_witness:
  "distinct [(''a'', ''c''), (''b'', ''c'')] \<and> distinct [(''b'', ''c''), (''a'', ''c'')] \<and>
   set [(''a'', ''c''), (''b'', ''c'')] = set [(''b'', ''c''), (''a'', ''c'')] \<and>
   [] \<notin> nodes [(''a'', ''c''), (''b'', ''c'')] \<and>
   (\<exists>l l'. topologicalSort [(''a'', ''c''), (''b'', ''c'')] = Inr l \<and>
            topologicalSort [(''b'', ''c''), (''a'', ''c'')] = Inr l' \<and>
            distinct l \<and> distinct l' \<and> set l = nodes [(''a'', ''c''), (''b'', ''c'')] \<and>
            set l' = nodes [(''a'', ''c''), (''b'', ''c'')] \<and>
            (\<forall>(a, b) \<in> set [(''a'', ''c''), (''b'', ''c'')].
                appears_before b a l \<and> appears_before b a l'))"
proof -
  let ?rs = "[(''a'', ''c''), (''b'', ''c'')]" and ?rs' = "[(''b'', ''c''), (''a'', ''c'')]"
  have d: "distinct ?rs" and d': "distinct ?rs'" by simp_all
  have s: "set ?rs = set ?rs'" by auto
  have n: "[] \<notin> nodes ?rs" by (simp add: nodes_def)
  have e: "topologicalSort ?rs = Inr [''c'', ''a'', ''b'']" by code_simp
  from topologicalSort_same_edge_set[OF d d' s n] e show ?thesis using d d' s n by auto
qed

theorem topologicalSort_order_counterexample:
  "distinct [(''a'', ''c''), (''b'', ''c'')] \<and> distinct [(''b'', ''c''), (''a'', ''c'')] \<and>
   set [(''a'', ''c''), (''b'', ''c'')] = set [(''b'', ''c''), (''a'', ''c'')] \<and>
   topologicalSort [(''a'', ''c''), (''b'', ''c'')] = Inr [''c'', ''a'', ''b''] \<and>
   topologicalSort [(''b'', ''c''), (''a'', ''c'')] = Inr [''c'', ''b'', ''a''] \<and>
   topologicalSort [(''a'', ''c''), (''b'', ''c'')] \<noteq> topologicalSort [(''b'', ''c''), (''a'', ''c'')]"
proof -
  have s: "set [(''a'', ''c''), (''b'', ''c'')] = set [(''b'', ''c''), (''a'', ''c'')]" by auto
  have e1: "topologicalSort [(''a'', ''c''), (''b'', ''c'')] = Inr [''c'', ''a'', ''b'']" by code_simp
  have e2: "topologicalSort [(''b'', ''c''), (''a'', ''c'')] = Inr [''c'', ''b'', ''a'']" by code_simp
  show ?thesis unfolding e1 e2 using s by simp
qed

section \<open>The life cycle of a task\<close>

lemma task_inv_Task: "task_inv (Task n)"
  by (simp add: task_inv_def Task_def)

lemma task_inv_run: "task_inv t \<Longrightarrow> task_inv (run jc t)"
  by (cases jc) (auto simp: task_inv_def run_def)

lemma task_inv_settle: "task_inv t \<Longrightarrow> task_inv (settle oc t)"
  by (auto simp: task_inv_def settle_def split: option.splits promise.splits outcome.splits rejection.splits)

lemma task_inv_step: "task_inv t \<Longrightarrow> task_inv (step ev t)"
  by (cases ev) (simp_all add: task_inv_run task_inv_settle)

lemma task_inv_exec: "task_inv t \<Longrightarrow> task_inv (exec es t)"
  unfolding exec_def by (induction es arbitrary: t) (simp_all add: task_inv_step)

lemma status_run: "status (run jc t) = status t \<or> advances (status t) (status (run jc t))"
  by (cases "status t"; cases jc) (simp_all add: run_def)

lemma status_settle:
  "task_inv t \<Longrightarrow> status (settle oc t) = status t \<or> advances (status t) (status (settle oc t))"
  by (auto simp: task_inv_def settle_def split: option.splits promise.splits outcome.splits rejection.splits)

lemma status_step:
  "task_inv t \<Longrightarrow> status (step ev t) = status t \<or> advances (status t) (status (step ev t))"
  by (cases ev) (simp_all add: status_run status_settle)

lemma done_step: "task_inv t \<Longrightarrow> done_task t \<Longrightarrow> step ev t = t"
  by (cases ev) (auto simp: task_inv_def done_task_def run_def settle_def split: option.splits promise.splits)

lemma done_exec: "task_inv t \<Longrightarrow> done_task t \<Longrightarrow> exec es t = t"
  unfolding exec_def by (induction es) (simp_all add: done_step)

lemma settle_in_flight:
  "task_inv t \<Longrightarrow> runningPromise t = Some Unsettled \<Longrightarrow>
     status t = Running \<and>
     status (settle (Resolved msg) t) = Success \<and> message (settle (Resolved msg) t) = msg \<and>
     status (settle (Rejected (ErrorObject m)) t) = Failed \<and>
     error (settle (Rejected (ErrorObject m)) t) = Some (trim m) \<and>
     status (settle (Rejected NoMessage) t) = Failed \<and>
     error (settle (Rejected NoMessage) t) = None"
  by (simp add: task_inv_def settle_def)

lemma coherent_run: "coherent t \<Longrightarrow> coherent (run ReturnsPromise t)"
  by (auto simp: coherent_def run_def is_fulfilled_def is_rejected_def)

lemma coherent_settle: "coherent t \<Longrightarrow> coherent (settle oc t)"
  by (auto simp: coherent_def settle_def is_fulfilled_def is_rejected_def
      split: option.splits promise.splits outcome.splits rejection.splits)

lemma coherent_Task: "coherent (Task n)"
  by (simp add: coherent_def Task_def is_fulfilled_def is_rejected_def)

lemma coherent_exec: "coherent t \<Longrightarrow> Run Throws \<notin> set es \<Longrightarrow> coherent (exec es t)"
  unfolding exec_def
proof (induction es arbitrary: t)
  case Nil
  then show ?case by simp
next
  case (Cons e es)
  have "coherent (step e t)"
  proof (cases e)
    case (Run jc)
    then have "jc = ReturnsPromise" using Cons.prems(2) by (cases jc) simp_all
    then show ?thesis using Run Cons.prems(1) by (simp add: coherent_run)
  next
    case (Settle oc)
    then show ?thesis using Cons.prems(1) by (simp add: coherent_settle)
  qed
  then show ?case using Cons.IH[of "step e t"] Cons.prems(2) by simp
qed

text \<open>
  Claim C4, as the code has it. The claim fails on a rejection that carries no string
  \<^verbatim>\<open>message\<close> (the task becomes failed and no error text is stored) and on a job that
  throws before it has returned a promise (the task stays running). Along every
  sequence of \<^verbatim>\<open>run()\<close> invocations and settlements from a new task, each event leaves
  the status or moves it one step along pending, running, then success or failed; a
  terminal task never changes again; \<^verbatim>\<open>run()\<close> changes nothing unless the status is
  pending, and then the status becomes running, with the promise that the job returned
  in flight; a task whose promise is in flight is running, becomes success and stores
  the message when the promise resolves, and becomes failed and stores the trimmed
  message when the promise rejects with an error that has one; when every call of the
  job has returned a promise, a running task has its promise in flight; \<^verbatim>\<open>done()\<close> holds
  exactly in success and failed.
\<close>

theorem task_lifecycle:
  fixes es es' :: "'a event list" and n :: string
  defines "t \<equiv> exec es (Task n)"
  shows "(status (step ev t) = status t \<or> advances (status t) (status (step ev t))) \<and>
         (done_task t \<longrightarrow> exec es' t = t) \<and>
         (status t \<noteq> Pending \<longrightarrow> run jc t = t) \<and>
         (status t = Pending \<longrightarrow>
            status (run jc t) = Running \<and> runningPromise (run ReturnsPromise t) = Some Unsettled) \<and>
         (runningPromise t = Some Unsettled \<longrightarrow>
            status t = Running \<and>
            status (settle (Resolved msg) t) = Success \<and> message (settle (Resolved msg) t) = msg \<and>
            status (settle (Rejected (ErrorObject m)) t) = Failed \<and>
            error (settle (Rejected (ErrorObject m)) t) = Some (trim m) \<and>
            status (settle (Rejected NoMessage) t) = Failed \<and>
            error (settle (Rejected NoMessage) t) = None) \<and>
         (Run Throws \<notin> set es \<longrightarrow> status t = Running \<longrightarrow> runningPromise t = Some Unsettled) \<and>
         (done_task t \<longleftrightarrow> status t = Success \<or> status t = Failed)"
proof -
  have i: "task_inv t" unfolding t_def by (rule task_inv_exec[OF task_inv_Task])
  have c: "Run Throws \<notin> set es \<Longrightarrow> coherent t"
    unfolding t_def by (rule coherent_exec[OF coherent_Task])
  have r: "status t = Pending \<longrightarrow>
             status (run jc t) = Running \<and> runningPromise (run ReturnsPromise t) = Some Unsettled"
    by (cases jc) (simp_all add: run_def)
  have f: "Run Throws \<notin> set es \<longrightarrow> status t = Running \<longrightarrow> runningPromise t = Some Unsettled"
    using c by (auto simp: coherent_def)
  have d: "done_task t \<longleftrightarrow> status t = Success \<or> status t = Failed"
    by (auto simp: done_task_def)
  have n: "status t \<noteq> Pending \<longrightarrow> run jc t = t" by (simp add: run_def)
  show ?thesis
    using status_step[OF i, of ev] done_exec[OF i, of es'] settle_in_flight[OF i, of msg m] r f d n
    by blast
qed

theorem task_lifecycle_witness:
  "status (exec [Run ReturnsPromise] (Task ''ds/tbl/ddl.sql'' :: string task)) = Running \<and>
   runningPromise (exec [Run ReturnsPromise] (Task ''ds/tbl/ddl.sql'' :: string task)) = Some Unsettled \<and>
   run ReturnsPromise (exec [Run ReturnsPromise] (Task ''ds/tbl/ddl.sql'' :: string task))
     = exec [Run ReturnsPromise] (Task ''ds/tbl/ddl.sql'') \<and>
   status (settle (Resolved (Some ''0B'')) (exec [Run ReturnsPromise] (Task ''ds/tbl/ddl.sql''))) = Success \<and>
   message (settle (Resolved (Some ''0B'')) (exec [Run ReturnsPromise] (Task ''ds/tbl/ddl.sql''))) = Some ''0B'' \<and>
   status (settle (Rejected (ErrorObject '' no such table  ''))
             (exec [Run ReturnsPromise] (Task ''ds/tbl/ddl.sql'' :: string task))) = Failed \<and>
   error (settle (Rejected (ErrorObject '' no such table  ''))
            (exec [Run ReturnsPromise] (Task ''ds/tbl/ddl.sql'' :: string task)))
     = Some ''no such table'' \<and>
   status (exec [] (Task ''ds/tbl/ddl.sql'' :: string task)) = Pending \<and>
   status (run Throws (exec [] (Task ''ds/tbl/ddl.sql'' :: string task))) = Running \<and>
   runningPromise (run ReturnsPromise (exec [] (Task ''ds/tbl/ddl.sql'' :: string task))) = Some Unsettled \<and>
   done_task (exec [Run ReturnsPromise, Settle (Rejected (ErrorObject ''x''))]
                (Task ''ds/tbl/ddl.sql'' :: string task)) \<and>
   exec [Run ReturnsPromise, Settle (Resolved None)]
     (exec [Run ReturnsPromise, Settle (Rejected (ErrorObject ''x''))] (Task ''ds/tbl/ddl.sql'' :: string task))
     = exec [Run ReturnsPromise, Settle (Rejected (ErrorObject ''x''))] (Task ''ds/tbl/ddl.sql'')"
proof -
  let ?n = "''ds/tbl/ddl.sql''"
  let ?t0 = "exec [] (Task ?n :: string task)"
  let ?t1 = "exec [Run ReturnsPromise] (Task ?n :: string task)"
  let ?t2 = "exec [Run ReturnsPromise, Settle (Rejected (ErrorObject ''x''))] (Task ?n :: string task)"
  have r: "status ?t1 = Running" by (simp add: exec_def Task_def run_def)
  have p: "status ?t0 = Pending" by (simp add: exec_def Task_def)
  have d: "done_task ?t2" by (simp add: exec_def Task_def run_def settle_def done_task_def)
  have t: "trim '' no such table  '' = ''no such table''" by (simp add: trim_def is_space_def)
  have np: "status ?t1 \<noteq> Pending" using r by simp
  have nt: "Run Throws \<notin> set [Run ReturnsPromise :: string event]" by simp
  note A = task_lifecycle[where es = "[Run ReturnsPromise]" and n = ?n and ev = "Run ReturnsPromise"
      and es' = "[]" and jc = ReturnsPromise and msg = "Some ''0B''" and m = "'' no such table  ''"]
  note B = task_lifecycle[where es = "[] :: string event list" and n = ?n and ev = "Run ReturnsPromise"
      and es' = "[]" and jc = Throws and msg = "None :: string option" and m = "[]"]
  note C = task_lifecycle[where es = "[Run ReturnsPromise, Settle (Rejected (ErrorObject ''x''))]"
      and n = ?n and ev = "Run ReturnsPromise" and es' = "[Run ReturnsPromise, Settle (Resolved None)]"
      and jc = ReturnsPromise and msg = "None :: string option" and m = "[]"]
  have u: "runningPromise ?t1 = Some Unsettled" using A nt r by blast
  have a1: "run ReturnsPromise ?t1 = ?t1" using A np by blast
  have a2: "status (settle (Resolved (Some ''0B'')) ?t1) = Success \<and>
            message (settle (Resolved (Some ''0B'')) ?t1) = Some ''0B'' \<and>
            status (settle (Rejected (ErrorObject '' no such table  '')) ?t1) = Failed \<and>
            error (settle (Rejected (ErrorObject '' no such table  '')) ?t1)
              = Some (trim '' no such table  '')"
    using A u by blast
  have b1: "status (run Throws ?t0) = Running \<and>
            runningPromise (run ReturnsPromise ?t0) = Some Unsettled"
    using B p by blast
  have c1: "exec [Run ReturnsPromise, Settle (Resolved None)] ?t2 = ?t2" using C d by blast
  show ?thesis using r u p d a1 a2[unfolded t] b1 c1 by blast
qed

theorem task_lifecycle_counterexample:
  "status (exec [Run ReturnsPromise, Settle (Rejected NoMessage)] (Task ''ds/tbl/ddl.sql'' :: string task))
     = Failed \<and>
   error (exec [Run ReturnsPromise, Settle (Rejected NoMessage)] (Task ''ds/tbl/ddl.sql'' :: string task))
     = None \<and>
   status (exec [Run Throws] (Task ''ds/tbl/ddl.sql'' :: string task)) = Running \<and>
   runningPromise (exec [Run Throws] (Task ''ds/tbl/ddl.sql'' :: string task)) = None \<and>
   \<not> done_task (exec [Run Throws] (Task ''ds/tbl/ddl.sql'' :: string task)) \<and>
   run ReturnsPromise (exec [Run Throws] (Task ''ds/tbl/ddl.sql'' :: string task))
     = exec [Run Throws] (Task ''ds/tbl/ddl.sql'')"
  by (simp add: exec_def Task_def run_def settle_def done_task_def)

section \<open>Reconciliation\<close>

lemma kind_tasks_dryRun: "t \<in> set (kind_tasks h nsP ds dry force kind) \<Longrightarrow> d_isDryRun t = dry"
  by (auto simp: kind_tasks_def Let_def split: list.splits if_splits)

lemma cleanup_tasks_dryRun:
  "t \<in> set (cleanupBigQueryDataset h bq dp rootDir projectId datasetId options) \<Longrightarrow>
     d_isDryRun t = effective_dryRun options"
  unfolding cleanupBigQueryDataset_def effective_dryRun_def
  by (auto simp: Let_def split: if_splits prod.splits dest!: kind_tasks_dryRun)

lemma demo_cleanup:
  "cleanupBigQueryDataset demo_host demo_remote ''p'' ''bigquery'' ''@default'' ''ds''
     (Some \<lparr>opt_dryRun = Some dry, withoutConrimation = False\<rparr>) = [r2_task dry]"
  by (simp add: cleanupBigQueryDataset_def demo_host_def demo_remote_def r2_task_def Let_def
      path_join_def resource_map_def forget_local_def map_has_def map_delete_def kind_tasks_def
      prompt_text_def trim_def is_space_def toUpperCase_def upper_char_def)

lemma demo_cleanup_default:
  "cleanupBigQueryDataset demo_host demo_remote ''p'' ''bigquery'' ''@default'' ''ds'' None
     = [r2_task True]"
  by (simp add: cleanupBigQueryDataset_def demo_host_def demo_remote_def r2_task_def Let_def
      path_join_def resource_map_def forget_local_def map_has_def map_delete_def kind_tasks_def
      prompt_text_def trim_def is_space_def toUpperCase_def upper_char_def)

text \<open>
  Claim C9. Every deletion task that \<open>cleanupBigQueryDataset\<close> emits logs one line; in
  dry-run mode it calls no \<^verbatim>\<open>delete\<close>, otherwise it calls \<^verbatim>\<open>delete\<close> on its resource;
  whether that call resolves or rejects, the closure resolves, and the task ends in
  success.
\<close>

theorem deletion_task_swallows:
  assumes "t \<in> set (cleanupBigQueryDataset h bq dp rootDir projectId datasetId options)"
  shows "fst (deletion_job delete_ok t) =
           [(if effective_dryRun options then ''(DRYRUN) '' else []) @ ''Deleting '' @ d_bqId t] \<and>
         fst (snd (deletion_job delete_ok t)) =
           (if effective_dryRun options then [] else [d_resource t]) \<and>
         snd (snd (deletion_job delete_ok t)) = Resolved (Some (effective_dryRun options)) \<and>
         status (settle (snd (snd (deletion_job delete_ok t))) (run ReturnsPromise (Task (d_name t)))) = Success"
  using cleanup_tasks_dryRun[OF assms]
  by (simp add: deletion_job_def Let_def settle_def run_def Task_def)

theorem deletion_task_swallows_witness:
  "r2_task False \<in> set (cleanupBigQueryDataset demo_host demo_remote ''p'' ''bigquery'' ''@default'' ''ds''
       (Some \<lparr>opt_dryRun = Some False, withoutConrimation = False\<rparr>)) \<and>
   fst (deletion_job (\<lambda>r. False) (r2_task False)) = [''Deleting p.ds.r2''] \<and>
   fst (snd (deletion_job (\<lambda>r. False) (r2_task False))) = [d_resource (r2_task False)] \<and>
   snd (snd (deletion_job (\<lambda>r. False) (r2_task False))) = Resolved (Some False) \<and>
   status (settle (snd (snd (deletion_job (\<lambda>r. False) (r2_task False))))
             (run ReturnsPromise (Task (d_name (r2_task False))))) = Success"
proof -
  have m: "r2_task False \<in> set (cleanupBigQueryDataset demo_host demo_remote ''p'' ''bigquery''
             ''@default'' ''ds'' (Some \<lparr>opt_dryRun = Some False, withoutConrimation = False\<rparr>))"
    by (simp add: demo_cleanup)
  from deletion_task_swallows[OF m, of "\<lambda>r. False"] m show ?thesis
    by (simp add: effective_dryRun_def r2_task_def deletion_job_def)
qed

text \<open>
  Claim C10. With no options, or with \<^verbatim>\<open>dryRun\<close> undefined, every emitted deletion task
  is a dry run and deletes nothing; a task deletes only when \<^verbatim>\<open>dryRun\<close> was given as
  \<^verbatim>\<open>false\<close>.
\<close>

theorem cleanup_defaults_to_dry_run:
  assumes "t \<in> set (cleanupBigQueryDataset h bq dp rootDir projectId datasetId options)"
  shows "((options = None \<or> (\<exists>ob. options = Some ob \<and> opt_dryRun ob = None)) \<longrightarrow>
            d_isDryRun t \<and> fst (snd (deletion_job delete_ok t)) = []) \<and>
         (fst (snd (deletion_job delete_ok t)) \<noteq> [] \<longrightarrow>
            (\<exists>ob. options = Some ob \<and> opt_dryRun ob = Some False))"
  using cleanup_tasks_dryRun[OF assms]
  by (auto simp: deletion_job_def Let_def effective_dryRun_def split: option.splits)

theorem cleanup_defaults_to_dry_run_witness:
  "r2_task True \<in> set (cleanupBigQueryDataset demo_host demo_remote ''p'' ''bigquery'' ''@default'' ''ds'' None) \<and>
   d_isDryRun (r2_task True) \<and>
   fst (snd (deletion_job (\<lambda>r. True) (r2_task True))) = [] \<and>
   r2_task False \<in> set (cleanupBigQueryDataset demo_host demo_remote ''p'' ''bigquery'' ''@default'' ''ds''
       (Some \<lparr>opt_dryRun = Some False, withoutConrimation = True\<rparr>)) \<and>
   fst (snd (deletion_job (\<lambda>r. True) (r2_task False))) \<noteq> [] \<and>
   (\<exists>ob. Some \<lparr>opt_dryRun = Some False, withoutConrimation = True\<rparr> = Some ob \<and> opt_dryRun ob = Some False)"
proof -
  have m: "r2_task True \<in> set (cleanupBigQueryDataset demo_host demo_remote ''p'' ''bigquery''
             ''@default'' ''ds'' None)"
    by (simp add: demo_cleanup_default)
  have m': "r2_task False \<in> set (cleanupBigQueryDataset demo_host demo_remote ''p'' ''bigquery''
             ''@default'' ''ds'' (Some \<lparr>opt_dryRun = Some False, withoutConrimation = True\<rparr>))"
    by (simp add: cleanupBigQueryDataset_def demo_host_def demo_remote_def r2_task_def Let_def
      path_join_def resource_map_def forget_local_def map_has_def map_delete_def kind_tasks_def
      toUpperCase_def upper_char_def)
  have d: "fst (snd (deletion_job (\<lambda>r. True) (r2_task False))) \<noteq> []"
    by (simp add: deletion_job_def r2_task_def)
  from cleanup_defaults_to_dry_run[OF m, of "\<lambda>r. True"] cleanup_defaults_to_dry_run[OF m', of "\<lambda>r. True"]
    m m' d
  show ?thesis by simp
qed

section \<open>The executor on view.sql\<close>

lemma split_on_not_Nil: "split_on c p \<noteq> []"
  by (induction p) (auto split: list.splits)

lemma join_Cons: "ys \<noteq> [] \<Longrightarrow> join sep (x # ys) = x @ sep @ join sep ys"
  by (cases ys) simp_all

lemma join_split_on: "join [c] (split_on c p) = p"
proof (induction p)
  case Nil
  then show ?case by simp
next
  case (Cons x xs)
  show ?case
  proof (cases "x = c")
    case True
    then show ?thesis using Cons split_on_not_Nil[of c xs] by (simp add: join_Cons)
  next
    case False
    obtain y ys where s: "split_on c xs = y # ys" using split_on_not_Nil[of c xs] by (cases "split_on c xs") auto
    show ?thesis
    proof (cases ys)
      case Nil
      then show ?thesis using Cons s False by simp
    next
      case (Cons z zs)
      then show ?thesis using Cons.IH s False by simp
    qed
  qed
qed

lemma join_last: "xs \<noteq> [] \<Longrightarrow> \<exists>pre. join sep xs = pre @ last xs"
proof (induction xs)
  case Nil
  then show ?case by simp
next
  case (Cons x xs)
  show ?case
  proof (cases "xs = []")
    case True
    then show ?thesis by simp
  next
    case False
    with Cons obtain pre where "join sep xs = pre @ last xs" by auto
    then show ?thesis using False by (simp add: join_Cons)
  qed
qed

lemma basename_suffix: "\<exists>pre. p = pre @ basename p"
  using join_last[OF split_on_not_Nil, of "[CHR ''/'']" "CHR ''/''" p]
  by (simp add: join_split_on basename_def)

lemma view_sql_endsWith: "basename p = ''view.sql'' \<Longrightarrow> endsWith p ''sql''"
proof -
  assume b: "basename p = ''view.sql''"
  from basename_suffix[of p] obtain pre where "p = pre @ ''view.sql''" using b by auto
  then show ?thesis by (simp add: endsWith_def)
qed

lemma and_then_rpc_first: "\<exists>rest r. and_then (rpc c x) f = (c # rest, r)"
  by (cases x) (auto simp: and_then_def rpc_def split: prod.splits)

text \<open>
  Claim C8, as the code has it. For a file named \<^verbatim>\<open>view.sql\<close> whose path gives a dataset
  and a table name, deployed in dry-run mode: the executor submits one dry-run job, the
  query \<^verbatim>\<open>CREATE OR REPLACE VIEW\<close> over the file body; when the warehouse answers it with
  \<^verbatim>\<open>totalBytesProcessed\<close>, the executor returns \<^verbatim>\<open>humanFileSize\<close> of that number and no
  other call reaches the warehouse: no \<^verbatim>\<open>createTable\<close>.
\<close>

theorem view_dry_run:
  assumes "basename p = ''view.sql''"
    and "nth_opt (split_on CHR ''.'' (path2bq h p rootPath (getProjectId w))) 1 = Some schemaId"
    and "nth_opt (split_on CHR ''.'' (path2bq h p rootPath (getProjectId w))) 2 = Some tableId"
    and "schemaId \<noteq> []" and "tableId \<noteq> []"
    and "readFile h p = Inr body"
    and "dryRun ob = Some True"
  shows "(\<exists>rest r. deployBigQueryResouce h w rootPath p (Some ob) =
           (CreateQueryJob \<lparr>cfg_dryRun = Some True,
                            cfg_query = ''CREATE OR REPLACE VIEW '' @ [CHR 0x60] @ schemaId @ ''.'' @
                                        tableId @ [CHR 0x60] @ '' as'' @ [CHR 0x0A] @ body,
                            cfg_priority = ''BATCH'',
                            cfg_jobPrefix = ''bqport-'' @ schemaId @ ''_'' @ tableId @ ''-'',
                            cfg_labels = map_set ''bqport'' ''true'' (labels ob)\<rparr> # rest, r)) \<and>
         (createQueryJob w (job_config (Some ob) (view_query schemaId tableId body) schemaId (Some tableId))
            = Inr ret \<and> totalBytesProcessed ret = Some b \<longrightarrow>
          deployBigQueryResouce h w rootPath p (Some ob) =
           ([CreateQueryJob \<lparr>cfg_dryRun = Some True,
                             cfg_query = ''CREATE OR REPLACE VIEW '' @ [CHR 0x60] @ schemaId @ ''.'' @
                                         tableId @ [CHR 0x60] @ '' as'' @ [CHR 0x0A] @ body,
                             cfg_priority = ''BATCH'',
                             cfg_jobPrefix = ''bqport-'' @ schemaId @ ''_'' @ tableId @ ''-'',
                             cfg_labels = map_set ''bqport'' ''true'' (labels ob)\<rparr>],
            Inr (Some (humanFileSize w (parseInt w b)))))"
proof -
  let ?cfg = "job_config (Some ob) (view_query schemaId tableId body) schemaId (Some tableId)"
  have e: "endsWith p ''sql''" by (rule view_sql_endsWith[OF assms(1)])
  have c: "?cfg =
        \<lparr>cfg_dryRun = Some True,
         cfg_query = ''CREATE OR REPLACE VIEW '' @ [CHR 0x60] @ schemaId @ ''.'' @
                     tableId @ [CHR 0x60] @ '' as'' @ [CHR 0x0A] @ body,
         cfg_priority = ''BATCH'',
         cfg_jobPrefix = ''bqport-'' @ schemaId @ ''_'' @ tableId @ ''-'',
         cfg_labels = map_set ''bqport'' ''true'' (labels ob)\<rparr>"
    using assms(7) by (simp add: job_config_def view_query_def str_of_def)
  have d: "deployBigQueryResouce h w rootPath p (Some ob) =
             and_then (rpc (CreateQueryJob ?cfg) (createQueryJob w ?cfg))
               (\<lambda>ret. case totalBytesProcessed ret of
                         Some b \<Rightarrow> ([], Inr (Some (humanFileSize w (parseInt w b))))
                       | None \<Rightarrow> apply_view w schemaId tableId body p)"
    using assms e by (simp add: deployBigQueryResouce_def Let_def falsy_def cong: option.case_cong)
  have first: "\<exists>rest r. deployBigQueryResouce h w rootPath p (Some ob) = (CreateQueryJob ?cfg # rest, r)"
    unfolding d by (rule and_then_rpc_first)
  have second: "deployBigQueryResouce h w rootPath p (Some ob) =
                  ([CreateQueryJob ?cfg], Inr (Some (humanFileSize w (parseInt w b))))"
    if "createQueryJob w ?cfg = Inr ret" "totalBytesProcessed ret = Some b"
    unfolding d using that by (simp add: and_then_def rpc_def)
  show ?thesis using first second unfolding c by blast
qed

theorem view_dry_run_witness:
  "basename ''bigquery/@default/ds/foo/view.sql'' = ''view.sql'' \<and>
   readFile spec_host ''bigquery/@default/ds/foo/view.sql'' = Inr ''SELECT 1'' \<and>
   createQueryJob dry_warehouse foo_view_config
     = Inr \<lparr>totalBytesProcessed = Some ''0'', configuration_dryRun = True\<rparr> \<and>
   deployBigQueryResouce spec_host dry_warehouse ''bigquery'' ''bigquery/@default/ds/foo/view.sql''
       (Some \<lparr>dryRun = Some True, labels = []\<rparr>)
     = ([CreateQueryJob foo_view_config], Inr (Some ''0B''))"
proof -
  let ?p = "''bigquery/@default/ds/foo/view.sql''"
  let ?ob = "\<lparr>dryRun = Some True, labels = []\<rparr>"
  let ?ret = "\<lparr>totalBytesProcessed = Some ''0'', configuration_dryRun = True\<rparr>"
  have id: "path2bq spec_host ?p ''bigquery'' (getProjectId dry_warehouse) = ''p.ds.foo''"
    by (simp add: spec_host_def dry_warehouse_def silent_warehouse_def path2id_spec_def Let_def)
  have h1: "basename ?p = ''view.sql''" by (simp add: basename_def)
  have h2: "nth_opt (split_on CHR ''.'' (path2bq spec_host ?p ''bigquery'' (getProjectId dry_warehouse))) 1
              = Some ''ds''"
    unfolding id by (simp add: nth_opt_def)
  have h3: "nth_opt (split_on CHR ''.'' (path2bq spec_host ?p ''bigquery'' (getProjectId dry_warehouse))) 2
              = Some ''foo''"
    unfolding id by (simp add: nth_opt_def)
  have h4: "''ds'' \<noteq> []" and h5: "''foo'' \<noteq> []" by simp_all
  have h6: "readFile spec_host ?p = Inr ''SELECT 1''" by (simp add: spec_host_def)
  have h7: "dryRun ?ob = Some True" by simp
  have h8: "createQueryJob dry_warehouse
              (job_config (Some ?ob) (view_query ''ds'' ''foo'' ''SELECT 1'') ''ds'' (Some ''foo'')) = Inr ?ret"
    by (simp add: dry_warehouse_def silent_warehouse_def)
  have h9: "totalBytesProcessed ?ret = Some ''0''" by simp
  have c: "createQueryJob dry_warehouse foo_view_config = Inr ?ret"
    by (simp add: dry_warehouse_def silent_warehouse_def)
  from view_dry_run[OF h1 h2 h3 h4 h5 h6 h7, of ?ret "''0''"] h8 h9
  have "deployBigQueryResouce spec_host dry_warehouse ''bigquery'' ?p (Some ?ob) =
          ([CreateQueryJob \<lparr>cfg_dryRun = Some True,
                            cfg_query = ''CREATE OR REPLACE VIEW '' @ [CHR 0x60] @ ''ds'' @ ''.'' @
                                        ''foo'' @ [CHR 0x60] @ '' as'' @ [CHR 0x0A] @ ''SELECT 1'',
                            cfg_priority = ''BATCH'',
                            cfg_jobPrefix = ''bqport-'' @ ''ds'' @ ''_'' @ ''foo'' @ ''-'',
                            cfg_labels = map_set ''bqport'' ''true'' (labels ?ob)\<rparr>],
           Inr (Some (humanFileSize dry_warehouse (parseInt dry_warehouse ''0''))))"
    by blast
  then show ?thesis using h1 h6 c
    by (simp add: foo_view_config_def view_query_def dry_warehouse_def silent_warehouse_def)
qed

theorem view_dry_run_counterexample:
  "basename ''bigquery/@default/ds/view.sql'' = ''view.sql'' \<and>
   deployBigQueryResouce spec_host dry_warehouse ''bigquery'' ''bigquery/@default/ds/view.sql''
       (Some \<lparr>dryRun = Some True, labels = []\<rparr>)
     = ([], Inr None) \<and>
   basename ''bigquery/@default/ds/foo/view.sql'' = ''view.sql'' \<and>
   deployBigQueryResouce spec_host silent_warehouse ''bigquery'' ''bigquery/@default/ds/foo/view.sql''
       (Some \<lparr>dryRun = Some True, labels = []\<rparr>)
     = ([CreateQueryJob foo_view_config, TableExists ''ds'' ''foo'',
         CreateTable ''ds'' ''foo'' ''SELECT 1'', SyncMetadata ''ds.foo'' ''bigquery/@default/ds/foo''],
        Inr None)"
  by code_simp

section \<open>The planner\<close>

text \<open>
  Claim C7 fails on the code. The file \<^verbatim>\<open>ds/tbl/ddl.sql\<close> refers to its own table
  \<^verbatim>\<open>ds.tbl\<close>; the filter compares each dependency with \<^verbatim>\<open>path2bq\<close> of the dependency,
  not with the namespace of the file, and the namespace \<^verbatim>\<open>p.ds.tbl\<close> stays among the
  dependencies of the job.
\<close>

theorem self_reference_kept:
  "job_resource spec_host ''p'' ''bigquery'' ''bigquery/@default/ds/tbl/ddl.sql''
     = Inr \<lparr>job_file = ''bigquery/@default/ds/tbl/ddl.sql'', namespace = ''p.ds.tbl'',
            dependencies = [''p.ds'', ''p.ds.tbl''], destinations = [''p.ds.tbl'']\<rparr>"
  by code_simp

section \<open>The invariant of a run\<close>

lemma status_settle_Running:
  "coherent t \<Longrightarrow> status t = Running \<Longrightarrow> status (settle oc t) \<in> {Success, Failed}"
  by (auto simp: coherent_def settle_def split: outcome.splits rejection.splits)

lemma p_ns_update:
  "p_ns t' = p_ns (ts ! i) \<Longrightarrow> x < length ts \<Longrightarrow> p_ns (ts[i := t'] ! x) = p_ns (ts ! x)"
  by (cases "x = i") simp_all

lemma node_tasks_update:
  "p_ns t' = p_ns (ts ! i) \<Longrightarrow> node_tasks d (ts[i := t']) = node_tasks d ts"
  unfolding node_tasks_def
  by (rule filter_cong) (simp_all add: p_ns_update)

lemma node_tasks_bound: "j \<in> set (node_tasks d ts) \<Longrightarrow> j < length ts"
  by (simp add: node_tasks_def)

lemma predecessors_update:
  "p_ns t' = p_ns (ts ! i) \<Longrightarrow> p_ix t' = p_ix (ts ! i) \<Longrightarrow> p_job t' = p_job (ts ! i) \<Longrightarrow>
     i < length ts \<Longrightarrow> predecessors (ts[i := t']) k = predecessors ts k"
  by (cases "k = i") (simp_all add: predecessors_def node_tasks_update)

lemma predecessors_bound: "j \<in> set (predecessors ts i) \<Longrightarrow> j < length ts"
  by (auto simp: predecessors_def dest: node_tasks_bound in_set_takeD)

lemma sys_inv_Start:
  assumes inv: "sys_inv st" and s: "sys_step (Start i) st = Some st'"
  shows "sys_inv st'"
proof -
  let ?ts = "tasks st"
  let ?t' = "(?ts ! i)\<lparr>p_task := run ReturnsPromise (p_task (?ts ! i)), awaited := Some (awaits_of ?ts i)\<rparr>"
  from s have i: "i < length ?ts" and pend: "status (p_task (?ts ! i)) = Pending"
    and fifo: "\<And>j. j < i \<Longrightarrow> status (p_task (?ts ! j)) \<noteq> Pending"
    and st': "st' = set_task i ?t' st"
    by (auto simp: Let_def list_all_length split: if_splits)
  have ts': "tasks st' = ?ts[i := ?t']" by (simp add: st' set_task_def)
  have len: "length (tasks st') = length ?ts" by (simp add: ts')
  have pred: "predecessors (tasks st') k = predecessors ?ts k" for k
    unfolding ts' using i by (intro predecessors_update) simp_all
  have run_st: "status (run ReturnsPromise (p_task (?ts ! i))) = Running" using pend by (simp add: run_def)
  from inv have coh: "\<And>k. k < length ?ts \<Longrightarrow> coherent (p_task (?ts ! k))"
    and I2: "\<And>k j. k < length ?ts \<Longrightarrow> j < k \<Longrightarrow> status (p_task (?ts ! k)) \<noteq> Pending \<Longrightarrow>
               status (p_task (?ts ! j)) \<noteq> Pending"
    and I3: "\<And>k aw. k < length ?ts \<Longrightarrow> awaited (?ts ! k) = Some aw \<Longrightarrow>
               status (p_task (?ts ! k)) \<noteq> Pending \<and>
               set aw \<subseteq> set (predecessors ?ts k) \<and>
               (\<forall>j\<in>set (predecessors ?ts k). j < k \<longrightarrow> j \<in> set aw)"
    and I4: "\<And>k. k < length ?ts \<Longrightarrow> deploying (?ts ! k) \<Longrightarrow>
               (\<exists>aw. awaited (?ts ! k) = Some aw \<and>
                  (\<forall>j\<in>set aw. j < length ?ts \<and> status (p_task (?ts ! j)) = Success))"
    unfolding sys_inv_def by blast+
  have nd: "\<not> deploying (?ts ! i)"
  proof
    assume "deploying (?ts ! i)"
    from I4[OF i this] obtain aw where "awaited (?ts ! i) = Some aw" by blast
    from I3[OF i this] pend show False by simp
  qed
  show ?thesis
    unfolding sys_inv_def len pred
  proof (intro conjI allI impI ballI)
    fix k assume k: "k < length ?ts"
    show "coherent (p_task (tasks st' ! k))"
      using coh[OF k] k by (cases "k = i") (simp_all add: ts' coherent_run)
  next
    fix k j assume k: "k < length ?ts" and j: "j < k"
      and np: "status (p_task (tasks st' ! k)) \<noteq> Pending"
    show "status (p_task (tasks st' ! j)) \<noteq> Pending"
    proof (cases "j = i")
      case True
      then show ?thesis using i run_st by (simp add: ts')
    next
      case ji: False
      show ?thesis
      proof (cases "k = i")
        case True
        then show ?thesis using fifo[of j] j ji k by (simp add: ts')
      next
        case False
        then show ?thesis using I2[OF k j] np ji k j by (simp add: ts')
      qed
    qed
  next
    fix k aw assume k: "k < length ?ts" and aw: "awaited (tasks st' ! k) = Some aw"
    show "status (p_task (tasks st' ! k)) \<noteq> Pending"
      using I3[OF k] aw k run_st by (cases "k = i") (simp_all add: ts')
  next
    fix k aw assume k: "k < length ?ts" and aw: "awaited (tasks st' ! k) = Some aw"
    show "set aw \<subseteq> set (predecessors ?ts k)"
    proof (cases "k = i")
      case True
      then have "aw = awaits_of ?ts i" using aw i by (simp add: ts')
      then show ?thesis using True by (auto simp: awaits_of_def)
    next
      case False
      then show ?thesis using I3[OF k, of aw] aw k by (simp add: ts')
    qed
  next
    fix k aw j assume k: "k < length ?ts" and aw: "awaited (tasks st' ! k) = Some aw"
      and j: "j \<in> set (predecessors ?ts k)" and jk: "j < k"
    show "j \<in> set aw"
    proof (cases "k = i")
      case True
      then have a: "aw = awaits_of ?ts i" using aw i by (simp add: ts')
      have "status (p_task (?ts ! j)) \<noteq> Pending" using fifo[of j] jk True by simp
      moreover have "coherent (p_task (?ts ! j))" using coh[of j] jk k by simp
      ultimately have "runningPromise (p_task (?ts ! j)) \<noteq> None" by (simp add: coherent_def)
      then show ?thesis using j True by (simp add: a awaits_of_def)
    next
      case False
      then show ?thesis using I3[OF k, of aw] aw j jk k by (simp add: ts')
    qed
  next
    fix k assume k: "k < length ?ts" and d: "deploying (tasks st' ! k)"
    have ki: "k \<noteq> i" using d nd i by (auto simp: ts')
    then have "deploying (?ts ! k)" using d k by (simp add: ts')
    from I4[OF k this] obtain aw where aw: "awaited (?ts ! k) = Some aw"
      and all: "\<forall>j\<in>set aw. j < length ?ts \<and> status (p_task (?ts ! j)) = Success" by blast
    have "\<forall>j\<in>set aw. j < length ?ts \<and> status (p_task (tasks st' ! j)) = Success"
    proof
      fix j assume "j \<in> set aw"
      then have jj: "j < length ?ts" "status (p_task (?ts ! j)) = Success" using all by auto
      then have "j \<noteq> i" using pend by auto
      then show "j < length ?ts \<and> status (p_task (tasks st' ! j)) = Success"
        using jj by (simp add: ts')
    qed
    then show "\<exists>aw. awaited (tasks st' ! k) = Some aw \<and>
                 (\<forall>j\<in>set aw. j < length ?ts \<and> status (p_task (tasks st' ! j)) = Success)"
      using aw ki k by (simp add: ts')
  qed
qed

lemma sys_inv_update:
  assumes inv: "sys_inv st" and i: "i < length (tasks st)"
    and ts': "tasks st' = (tasks st)[i := t']"
    and sk: "p_ns t' = p_ns (tasks st ! i)" "p_ix t' = p_ix (tasks st ! i)"
            "p_job t' = p_job (tasks st ! i)" "awaited t' = awaited (tasks st ! i)"
    and run: "status (p_task (tasks st ! i)) = Running"
    and coh': "coherent (p_task t')" and np: "status (p_task t') \<noteq> Pending"
    and dep: "deploying t' \<Longrightarrow>
                \<exists>aw. awaited t' = Some aw \<and>
                  (\<forall>j\<in>set aw. j < length (tasks st) \<and> status (p_task (tasks st ! j)) = Success)"
  shows "sys_inv st'"
proof -
  let ?ts = "tasks st"
  have len: "length (tasks st') = length ?ts" by (simp add: ts')
  have pred: "predecessors (tasks st') k = predecessors ?ts k" for k
    unfolding ts' using i sk by (intro predecessors_update) simp_all
  from inv have coh: "\<And>k. k < length ?ts \<Longrightarrow> coherent (p_task (?ts ! k))"
    and I2: "\<And>k j. k < length ?ts \<Longrightarrow> j < k \<Longrightarrow> status (p_task (?ts ! k)) \<noteq> Pending \<Longrightarrow>
               status (p_task (?ts ! j)) \<noteq> Pending"
    and I3: "\<And>k aw. k < length ?ts \<Longrightarrow> awaited (?ts ! k) = Some aw \<Longrightarrow>
               status (p_task (?ts ! k)) \<noteq> Pending \<and>
               set aw \<subseteq> set (predecessors ?ts k) \<and>
               (\<forall>j\<in>set (predecessors ?ts k). j < k \<longrightarrow> j \<in> set aw)"
    and I4: "\<And>k. k < length ?ts \<Longrightarrow> deploying (?ts ! k) \<Longrightarrow>
               (\<exists>aw. awaited (?ts ! k) = Some aw \<and>
                  (\<forall>j\<in>set aw. j < length ?ts \<and> status (p_task (?ts ! j)) = Success))"
    unfolding sys_inv_def by blast+
  have keep: "status (p_task (tasks st' ! j)) = Success"
    if "j < length ?ts" "status (p_task (?ts ! j)) = Success" for j
  proof -
    have "j \<noteq> i" using that run by auto
    then show ?thesis using that by (simp add: ts')
  qed
  have aw_eq: "awaited (tasks st' ! k) = awaited (?ts ! k)" if "k < length ?ts" for k
    using that sk(4) by (cases "k = i") (simp_all add: ts')
  have np': "status (p_task (tasks st' ! k)) \<noteq> Pending"
    if "k < length ?ts" "status (p_task (?ts ! k)) \<noteq> Pending" for k
    using that np by (cases "k = i") (simp_all add: ts')
  have np'': "status (p_task (?ts ! k)) \<noteq> Pending"
    if "k < length ?ts" "status (p_task (tasks st' ! k)) \<noteq> Pending" for k
    using that run by (cases "k = i") (simp_all add: ts')
  show ?thesis
    unfolding sys_inv_def len pred
  proof (intro conjI allI impI ballI)
    fix k assume k: "k < length ?ts"
    show "coherent (p_task (tasks st' ! k))"
      using coh[OF k] k coh' by (cases "k = i") (simp_all add: ts')
  next
    fix k j assume k: "k < length ?ts" and j: "j < k"
      and n: "status (p_task (tasks st' ! k)) \<noteq> Pending"
    have "status (p_task (?ts ! j)) \<noteq> Pending" using I2[OF k j np''[OF k n]] .
    then show "status (p_task (tasks st' ! j)) \<noteq> Pending" using np'[of j] j k by simp
  next
    fix k aw assume k: "k < length ?ts" and aw: "awaited (tasks st' ! k) = Some aw"
    then have a: "awaited (?ts ! k) = Some aw" by (simp add: aw_eq)
    show "status (p_task (tasks st' ! k)) \<noteq> Pending" using I3[OF k a] np'[OF k] by simp
    show "set aw \<subseteq> set (predecessors ?ts k)" using I3[OF k a] by simp
  next
    fix k aw j assume k: "k < length ?ts" and aw: "awaited (tasks st' ! k) = Some aw"
      and j: "j \<in> set (predecessors ?ts k)" and jk: "j < k"
    then have a: "awaited (?ts ! k) = Some aw" by (simp add: aw_eq)
    show "j \<in> set aw" using I3[OF k a] j jk by simp
  next
    fix k assume k: "k < length ?ts" and d: "deploying (tasks st' ! k)"
    have "\<exists>aw. awaited (?ts ! k) = Some aw \<and>
            (\<forall>j\<in>set aw. j < length ?ts \<and> status (p_task (?ts ! j)) = Success)"
    proof (cases "k = i")
      case True
      then have "deploying t'" using d i by (simp add: ts')
      from dep[OF this] show ?thesis using True sk(4) by simp
    next
      case False
      then have "deploying (?ts ! k)" using d k by (simp add: ts')
      from I4[OF k this] show ?thesis .
    qed
    then obtain aw where a: "awaited (?ts ! k) = Some aw"
      and all: "\<forall>j\<in>set aw. j < length ?ts \<and> status (p_task (?ts ! j)) = Success" by blast
    have "\<forall>j\<in>set aw. j < length ?ts \<and> status (p_task (tasks st' ! j)) = Success"
      using all keep by blast
    then show "\<exists>aw. awaited (tasks st' ! k) = Some aw \<and>
                 (\<forall>j\<in>set aw. j < length ?ts \<and> status (p_task (tasks st' ! j)) = Success)"
      using a aw_eq[OF k] by simp
  qed
qed

lemma sys_inv_step:
  assumes inv: "sys_inv st" and s: "sys_step a st = Some st'"
  shows "sys_inv st'"
proof (cases a)
  case (Start i)
  then show ?thesis using sys_inv_Start[OF inv] s by simp
next
  case (Suspend i)
  let ?ts = "tasks st"
  let ?t' = "(?ts ! i)\<lparr>p_task := settle (Rejected (ErrorObject (suspended_message ?ts i)))
                                    (p_task (?ts ! i))\<rparr>"
  from s Suspend have i: "i < length ?ts" and r: "status (p_task (?ts ! i)) = Running"
    and nd: "\<not> deploying (?ts ! i)" and st': "st' = set_task i ?t' st"
    by (auto simp: Let_def split: if_splits option.splits)
  have c: "coherent (p_task (?ts ! i))" using inv i by (simp add: sys_inv_def)
  show ?thesis
  proof (rule sys_inv_update[OF inv i, of st' ?t'])
    show "tasks st' = ?ts[i := ?t']" by (simp add: st' set_task_def)
    show "status (p_task (?ts ! i)) = Running" by (rule r)
    show "coherent (p_task ?t')" using c by (simp add: coherent_settle)
    show "status (p_task ?t') \<noteq> Pending" using status_settle_Running[OF c r, of "Rejected (ErrorObject (suspended_message ?ts i))"] by auto
  qed (use nd in simp_all)
next
  case (DeployBegin i)
  let ?ts = "tasks st"
  let ?t' = "(?ts ! i)\<lparr>deploying := True\<rparr>"
  from s DeployBegin obtain aw where i: "i < length ?ts" and r: "status (p_task (?ts ! i)) = Running"
    and aw: "awaited (?ts ! i) = Some aw"
    and ful: "\<And>j. j \<in> set aw \<Longrightarrow> is_fulfilled (runningPromise (p_task (?ts ! j)))"
    and st': "st' = (set_task i ?t' st)\<lparr>calls := calls st @ [job_file (p_job (?ts ! i))]\<rparr>"
    by (auto simp: Let_def list_all_iff split: if_splits option.splits)
  have c: "\<And>k. k < length ?ts \<Longrightarrow> coherent (p_task (?ts ! k))" using inv by (simp add: sys_inv_def)
  have sub: "set aw \<subseteq> set (predecessors ?ts i)" using inv i aw unfolding sys_inv_def by blast
  show ?thesis
  proof (rule sys_inv_update[OF inv i, of st' ?t'])
    show "tasks st' = ?ts[i := ?t']" by (simp add: st' set_task_def)
    show "status (p_task (?ts ! i)) = Running" by (rule r)
    show "coherent (p_task ?t')" using c[OF i] by simp
    show "status (p_task ?t') \<noteq> Pending" using r by simp
    show "\<exists>aw. awaited ?t' = Some aw \<and>
            (\<forall>j\<in>set aw. j < length ?ts \<and> status (p_task (?ts ! j)) = Success)"
    proof (intro exI conjI ballI)
      show "awaited ?t' = Some aw" using aw by simp
      fix j assume j: "j \<in> set aw"
      then show jl: "j < length ?ts" using sub predecessors_bound by blast
      show "status (p_task (?ts ! j)) = Success" using c[OF jl] ful[OF j] by (simp add: coherent_def)
    qed
  qed simp_all
next
  case (DeployEnd i oc)
  let ?ts = "tasks st"
  let ?t' = "(?ts ! i)\<lparr>p_task := settle oc (p_task (?ts ! i))\<rparr>"
  from s DeployEnd have i: "i < length ?ts" and r: "status (p_task (?ts ! i)) = Running"
    and d: "deploying (?ts ! i)" and st': "st' = set_task i ?t' st"
    by (auto simp: Let_def split: if_splits)
  have c: "coherent (p_task (?ts ! i))" using inv i by (simp add: sys_inv_def)
  have I4: "\<exists>aw. awaited (?ts ! i) = Some aw \<and>
              (\<forall>j\<in>set aw. j < length ?ts \<and> status (p_task (?ts ! j)) = Success)"
    using inv i d unfolding sys_inv_def by blast
  show ?thesis
  proof (rule sys_inv_update[OF inv i, of st' ?t'])
    show "tasks st' = ?ts[i := ?t']" by (simp add: st' set_task_def)
    show "status (p_task (?ts ! i)) = Running" by (rule r)
    show "coherent (p_task ?t')" using c by (simp add: coherent_settle)
    show "status (p_task ?t') \<noteq> Pending" using status_settle_Running[OF c r, of oc] by auto
    show "\<exists>aw. awaited ?t' = Some aw \<and>
            (\<forall>j\<in>set aw. j < length ?ts \<and> status (p_task (?ts ! j)) = Success)"
      using I4 by simp
  qed simp_all
qed

lemma sys_inv_run_actions:
  "sys_inv st \<Longrightarrow> run_actions as st = Some st' \<Longrightarrow> sys_inv st'"
  by (induction as arbitrary: st) (auto split: option.splits dest: sys_inv_step)

lemma sys_inv_fresh: "list_all fresh (tasks st) \<Longrightarrow> sys_inv st"
  by (auto simp: sys_inv_def list_all_length fresh_def coherent_def is_fulfilled_def is_rejected_def)

section \<open>The order of the plan\<close>













lemma sys_step_skeleton:
  "sys_step a st = Some st' \<Longrightarrow> map p_ns (tasks st') = map p_ns (tasks st)"
  by (cases a)
     (auto simp: Let_def set_task_def map_update list_update_same_conv
           split: if_splits option.splits)



lemma sys_step_length: "sys_step a st = Some st' \<Longrightarrow> length (tasks st') = length (tasks st)"
  using sys_step_skeleton[of a st st'] by (metis length_map)

lemma sys_step_failed:
  assumes "sys_step a st = Some st'" and "status (p_task (tasks st ! j)) = Failed"
  shows "status (p_task (tasks st' ! j)) = Failed"
  using assms
  by (cases a)
     (auto simp: Let_def set_task_def nth_list_update split: if_splits option.splits)

lemma sys_step_awaited:
  assumes "sys_inv st" and "sys_step a st = Some st'" and "i < length (tasks st)"
    and "awaited (tasks st ! i) = Some aw"
  shows "awaited (tasks st' ! i) = Some aw"
proof -
  have np: "status (p_task (tasks st ! i)) \<noteq> Pending"
    using assms(1,3,4) unfolding sys_inv_def by blast
  show ?thesis
    using assms(2,3,4) np
    by (cases a)
       (auto simp: Let_def set_task_def nth_list_update split: if_splits option.splits)
qed

lemma run_actions_never_deploys:
  assumes "sys_inv st" and "run_actions as st = Some st'" and "i < length (tasks st)"
    and "awaited (tasks st ! i) = Some aw" and "j \<in> set aw"
    and "status (p_task (tasks st ! j)) = Failed"
  shows "\<not> deploying (tasks st' ! i)"
  using assms
proof (induction as arbitrary: st)
  case Nil
  then have "st' = st" by simp
  show ?case
  proof
    assume "deploying (tasks st' ! i)"
    with Nil obtain aw' where "awaited (tasks st ! i) = Some aw'"
      and "\<forall>k\<in>set aw'. k < length (tasks st) \<and> status (p_task (tasks st ! k)) = Success"
      unfolding sys_inv_def \<open>st' = st\<close> by blast
    then show False using Nil.prems(4,5,6) by auto
  qed
next
  case (Cons a as)
  from Cons.prems(2) obtain st1 where s: "sys_step a st = Some st1" and r: "run_actions as st1 = Some st'"
    by (auto split: option.splits)
  show ?case
  proof (rule Cons.IH[OF sys_inv_step[OF Cons.prems(1) s] r])
    show "i < length (tasks st1)" using Cons.prems(3) sys_step_length[OF s] by simp
    show "awaited (tasks st1 ! i) = Some aw" by (rule sys_step_awaited[OF Cons.prems(1) s Cons.prems(3,4)])
    show "j \<in> set aw" by (rule Cons.prems(5))
    show "status (p_task (tasks st1 ! j)) = Failed" by (rule sys_step_failed[OF s Cons.prems(6)])
  qed
qed

section \<open>How tasks end\<close>

lemma name_run: "name (run jc t) = name t"
  by (cases jc) (simp_all add: run_def)

lemma name_settle: "name (settle oc t) = name t"
  by (simp add: settle_def split: option.splits promise.splits outcome.splits rejection.splits)

lemma error_settle_in_flight:
  "runningPromise t = Some Unsettled \<Longrightarrow>
     status (settle (Rejected (ErrorObject m)) t) = Failed \<and>
     error (settle (Rejected (ErrorObject m)) t) = Some (trim m)"
  by (simp add: settle_def)

text \<open>A step changes one task, which was pending or running, and keeps what the planner
  gave it.\<close>

lemma sys_step_frame:
  assumes inv: "sys_inv st" and s: "sys_step a st = Some st'"
  shows "\<exists>m t'. m < length (tasks st) \<and> tasks st' = (tasks st)[m := t'] \<and>
           (status (p_task (tasks st ! m)) = Pending \<or> status (p_task (tasks st ! m)) = Running) \<and>
           p_ns t' = p_ns (tasks st ! m) \<and> p_job t' = p_job (tasks st ! m) \<and>
           name (p_task t') = name (p_task (tasks st ! m)) \<and>
           (status (p_task t') = Success \<longrightarrow> deploying t') \<and>
           (status (p_task t') = Failed \<and> \<not> deploying t' \<longrightarrow>
              error (p_task t') = Some (trim (suspended_message (tasks st) m)))"
proof (cases a)
  case (Start i)
  let ?ts = "tasks st"
  let ?t' = "(?ts ! i)\<lparr>p_task := run ReturnsPromise (p_task (?ts ! i)), awaited := Some (awaits_of ?ts i)\<rparr>"
  from s Start have i: "i < length ?ts" and p: "status (p_task (?ts ! i)) = Pending"
    and st': "st' = set_task i ?t' st"
    by (auto simp: Let_def split: if_splits)
  have r: "status (p_task ?t') = Running" using p by (simp add: run_def)
  show ?thesis
    by (rule exI[of _ i], rule exI[of _ ?t'])
       (use i p r in \<open>simp add: st' set_task_def name_run\<close>)
next
  case (Suspend i)
  let ?ts = "tasks st"
  let ?t' = "(?ts ! i)\<lparr>p_task := settle (Rejected (ErrorObject (suspended_message ?ts i)))
                                    (p_task (?ts ! i))\<rparr>"
  from s Suspend have i: "i < length ?ts" and r: "status (p_task (?ts ! i)) = Running"
    and st': "st' = set_task i ?t' st"
    by (auto simp: Let_def split: if_splits option.splits)
  have "coherent (p_task (?ts ! i))" using inv i by (simp add: sys_inv_def)
  then have u: "runningPromise (p_task (?ts ! i)) = Some Unsettled" using r by (simp add: coherent_def)
  note e = error_settle_in_flight[OF u, of "suspended_message ?ts i"]
  show ?thesis
    by (rule exI[of _ i], rule exI[of _ ?t'])
       (use i r e in \<open>simp add: st' set_task_def name_settle\<close>)
next
  case (DeployBegin i)
  let ?ts = "tasks st"
  let ?t' = "(?ts ! i)\<lparr>deploying := True\<rparr>"
  from s DeployBegin have i: "i < length ?ts" and r: "status (p_task (?ts ! i)) = Running"
    and st': "st' = (set_task i ?t' st)\<lparr>calls := calls st @ [job_file (p_job (?ts ! i))]\<rparr>"
    by (auto simp: Let_def split: if_splits option.splits)
  show ?thesis
    by (rule exI[of _ i], rule exI[of _ ?t'])
       (use i r in \<open>simp add: st' set_task_def\<close>)
next
  case (DeployEnd i oc)
  let ?ts = "tasks st"
  let ?t' = "(?ts ! i)\<lparr>p_task := settle oc (p_task (?ts ! i))\<rparr>"
  from s DeployEnd have i: "i < length ?ts" and r: "status (p_task (?ts ! i)) = Running"
    and d: "deploying (?ts ! i)" and st': "st' = set_task i ?t' st"
    by (auto simp: Let_def split: if_splits)
  show ?thesis
    by (rule exI[of _ i], rule exI[of _ ?t'])
       (use i r d in \<open>simp add: st' set_task_def name_settle\<close>)
qed

lemma ended_inv_step:
  assumes inv: "sys_inv st" and e: "ended_inv st" and s: "sys_step a st = Some st'"
  shows "ended_inv st'"
proof -
  let ?ts = "tasks st" and ?ts' = "tasks st'"
  let ?pre = "''Suspended: Parent job is faild: ''"
  from sys_step_frame[OF inv s] obtain m t' where
    m: "m < length ?ts" and ts': "?ts' = ?ts[m := t']"
    and pr: "status (p_task (?ts ! m)) = Pending \<or> status (p_task (?ts ! m)) = Running"
    and ns: "p_ns t' = p_ns (?ts ! m)" and jb: "p_job t' = p_job (?ts ! m)"
    and nm: "name (p_task t') = name (p_task (?ts ! m))"
    and su: "status (p_task t') = Success \<longrightarrow> deploying t'"
    and fa: "status (p_task t') = Failed \<and> \<not> deploying t' \<longrightarrow>
               error (p_task t') = Some (trim (suspended_message ?ts m))"
    by blast
  have len: "length ?ts' = length ?ts" by (simp add: ts')
  have name_eq: "name (p_task (?ts' ! k)) = name (p_task (?ts ! k))" if "k < length ?ts" for k
    using that nm by (cases "k = m") (simp_all add: ts')
  have ns_eq: "p_ns (?ts' ! k) = p_ns (?ts ! k)" if "k < length ?ts" for k
    using that ns by (cases "k = m") (simp_all add: ts')
  have jb_eq: "p_job (?ts' ! k) = p_job (?ts ! k)" if "k < length ?ts" for k
    using that jb by (cases "k = m") (simp_all add: ts')
  have keep: "status (p_task (?ts' ! k)) = Failed"
    if "k < length ?ts" "status (p_task (?ts ! k)) = Failed" for k
  proof -
    have "k \<noteq> m" using that(2) pr by auto
    then show ?thesis using that by (simp add: ts')
  qed
  have carry: "\<exists>ks'. trim (?pre @ join '', '' (map (\<lambda>k. name (p_task (?ts ! k))) ks)) =
                     trim (?pre @ join '', '' (map (\<lambda>k. name (p_task (?ts' ! k))) ks')) \<and>
                 (\<forall>k\<in>set ks'. k < length ?ts' \<and> status (p_task (?ts' ! k)) = Failed \<and>
                     p_ns (?ts' ! k) \<in> set (dependencies (p_job (?ts' ! i))))"
    if i: "i < length ?ts"
      and ks: "\<forall>k\<in>set ks. k < length ?ts \<and> status (p_task (?ts ! k)) = Failed \<and>
                 p_ns (?ts ! k) \<in> set (dependencies (p_job (?ts ! i)))"
    for i ks
  proof (intro exI[of _ ks] conjI ballI)
    have eq: "map (\<lambda>k. name (p_task (?ts ! k))) ks = map (\<lambda>k. name (p_task (?ts' ! k))) ks"
      using ks by (intro map_cong) (simp_all add: name_eq)
    show "trim (?pre @ join '', '' (map (\<lambda>k. name (p_task (?ts ! k))) ks)) =
          trim (?pre @ join '', '' (map (\<lambda>k. name (p_task (?ts' ! k))) ks))"
      by (simp only: eq)
  next
    fix k assume k: "k \<in> set ks"
    then show "k < length ?ts'" using ks len by simp
    show "status (p_task (?ts' ! k)) = Failed" using ks k keep by blast
    show "p_ns (?ts' ! k) \<in> set (dependencies (p_job (?ts' ! i)))"
      using ks k i by (simp add: ns_eq jb_eq)
  qed
  show ?thesis
    unfolding ended_inv_def len
  proof (intro allI impI conjI)
    fix i assume i: "i < length ?ts" and sc: "status (p_task (?ts' ! i)) = Success"
    show "deploying (?ts' ! i)"
    proof (cases "i = m")
      case True
      then show ?thesis using sc su m by (simp add: ts')
    next
      case False
      then show ?thesis using sc e i by (simp add: ts' ended_inv_def)
    qed
  next
    fix i assume i: "i < length ?ts"
      and f: "status (p_task (?ts' ! i)) = Failed \<and> \<not> deploying (?ts' ! i)"
    have "\<exists>ks. error (p_task (?ts' ! i)) =
                 Some (trim (?pre @ join '', '' (map (\<lambda>k. name (p_task (?ts ! k))) ks))) \<and>
               (\<forall>k\<in>set ks. k < length ?ts \<and> status (p_task (?ts ! k)) = Failed \<and>
                   p_ns (?ts ! k) \<in> set (dependencies (p_job (?ts ! i))))"
    proof (cases "i = m")
      case True
      let ?ks = "filter (\<lambda>k. status (p_task (?ts ! k)) = Failed)
                   (concat (map (\<lambda>d. node_tasks d ?ts) (dependencies (p_job (?ts ! i)))))"
      have "error (p_task (?ts' ! i)) = Some (trim (suspended_message ?ts i))"
        using f fa m True by (simp add: ts')
      then have "error (p_task (?ts' ! i)) =
                   Some (trim (?pre @ join '', '' (map (\<lambda>k. name (p_task (?ts ! k))) ?ks)))"
        by (simp add: suspended_message_def)
      moreover have "\<forall>k\<in>set ?ks. k < length ?ts \<and> status (p_task (?ts ! k)) = Failed \<and>
                       p_ns (?ts ! k) \<in> set (dependencies (p_job (?ts ! i)))"
        by (auto simp: node_tasks_def)
      ultimately show ?thesis by blast
    next
      case False
      then have "status (p_task (?ts ! i)) = Failed \<and> \<not> deploying (?ts ! i)"
        using f i by (simp add: ts')
      then show ?thesis using e i False unfolding ended_inv_def by (simp add: ts')
    qed
    then obtain ks where
      er: "error (p_task (?ts' ! i)) =
             Some (trim (?pre @ join '', '' (map (\<lambda>k. name (p_task (?ts ! k))) ks)))"
      and ks: "\<forall>k\<in>set ks. k < length ?ts \<and> status (p_task (?ts ! k)) = Failed \<and>
                 p_ns (?ts ! k) \<in> set (dependencies (p_job (?ts ! i)))"
      by blast
    from carry[OF i ks] obtain ks' where
      "trim (?pre @ join '', '' (map (\<lambda>k. name (p_task (?ts ! k))) ks)) =
         trim (?pre @ join '', '' (map (\<lambda>k. name (p_task (?ts' ! k))) ks'))"
      "\<forall>k\<in>set ks'. k < length ?ts' \<and> status (p_task (?ts' ! k)) = Failed \<and>
          p_ns (?ts' ! k) \<in> set (dependencies (p_job (?ts' ! i)))"
      by blast
    then show "\<exists>ks. error (p_task (?ts' ! i)) =
                 Some (trim (?pre @ join '', '' (map (\<lambda>k. name (p_task (?ts' ! k))) ks))) \<and>
               (\<forall>k\<in>set ks. k < length ?ts \<and> status (p_task (?ts' ! k)) = Failed \<and>
                   p_ns (?ts' ! k) \<in> set (dependencies (p_job (?ts' ! i))))"
      using er len by auto
  qed
qed

lemma ended_inv_run_actions:
  "sys_inv st \<Longrightarrow> ended_inv st \<Longrightarrow> run_actions as st = Some st' \<Longrightarrow> ended_inv st'"
proof (induction as arbitrary: st)
  case Nil
  then show ?case by simp
next
  case (Cons a as)
  from Cons.prems(3) obtain st1 where s: "sys_step a st = Some st1" and r: "run_actions as st1 = Some st'"
    by (auto split: option.splits)
  show ?case
    by (rule Cons.IH[OF sys_inv_step[OF Cons.prems(1) s] ended_inv_step[OF Cons.prems(1,2) s] r])
qed

lemma ended_inv_fresh: "list_all fresh (tasks st) \<Longrightarrow> ended_inv st"
  by (auto simp: ended_inv_def list_all_length fresh_def)

text \<open>Of the steps of a run, only its suspension changes a task that awaits a failed one.\<close>

lemma only_suspension:
  assumes nd: "\<not> deploying (tasks st ! i)" and np: "status (p_task (tasks st ! i)) \<noteq> Pending"
    and nb: "sys_step (DeployBegin i) st = None"
    and s: "sys_step a st = Some st'" and ch: "tasks st' ! i \<noteq> tasks st ! i"
  shows "a = Suspend i"
proof (cases a)
  case (Start k)
  then show ?thesis using s ch np
    by (cases "k = i") (auto simp: Let_def set_task_def split: if_splits)
next
  case (Suspend k)
  then show ?thesis using s ch
    by (cases "k = i") (auto simp: Let_def set_task_def split: if_splits option.splits)
next
  case (DeployBegin k)
  then show ?thesis using s ch nb
    by (cases "k = i") (auto simp: Let_def set_task_def split: if_splits option.splits)
next
  case (DeployEnd k oc)
  then show ?thesis using s ch nd
    by (cases "k = i") (auto simp: Let_def set_task_def split: if_splits)
qed

section \<open>Ordering and failure across tasks\<close>





text \<open>
  Claim C6, as the code has it. The claim fails on the names: the text names the tasks
  of the dependency nodes that have failed when \<^verbatim>\<open>Promise.all\<close> rejects, so neither an
  earlier task of the same node nor a predecessor that fails later is named. When a
  promise that the closure of task \<open>i\<close> awaits has rejected (task \<open>j\<close> failed), the
  closure never calls the executor: \<open>i\<close> is not deploying, cannot begin to, and is not
  deploying in any later state of the run. The task is running or failed, and no step
  but its suspension changes it. While it is running the suspension is enabled and
  makes it fail with the trimmed text \<^verbatim>\<open>Suspended: Parent job is faild:\<close> and the names
  of exactly the tasks of its dependency nodes that are failed at that moment. Once it
  has failed, its error is that text with names of failed tasks of its dependency nodes.
\<close>

theorem suspended_by_failed_parent:
  assumes "list_all fresh (tasks st0)" and "run_actions as st0 = Some st"
    and "i < length (tasks st)" and "awaited (tasks st ! i) = Some aw" and "j \<in> set aw"
    and "status (p_task (tasks st ! j)) = Failed"
  shows "\<not> deploying (tasks st ! i) \<and> sys_step (DeployBegin i) st = None \<and>
         (\<forall>bs st''. run_actions bs st = Some st'' \<longrightarrow> \<not> deploying (tasks st'' ! i)) \<and>
         (status (p_task (tasks st ! i)) = Running \<or> status (p_task (tasks st ! i)) = Failed) \<and>
         (\<forall>a st'. sys_step a st = Some st' \<and> tasks st' ! i \<noteq> tasks st ! i \<longrightarrow> a = Suspend i) \<and>
         (status (p_task (tasks st ! i)) = Running \<longrightarrow>
            (\<exists>st' ks. sys_step (Suspend i) st = Some st' \<and>
                   status (p_task (tasks st' ! i)) = Failed \<and>
                   error (p_task (tasks st' ! i)) =
                     Some (trim (''Suspended: Parent job is faild: '' @
                                 join '', '' (map (\<lambda>k. name (p_task (tasks st ! k))) ks))) \<and>
                   set ks = {k. k < length (tasks st) \<and> status (p_task (tasks st ! k)) = Failed \<and>
                                p_ns (tasks st ! k) \<in> set (dependencies (p_job (tasks st ! i)))} \<and>
                   \<not> deploying (tasks st' ! i) \<and> calls st' = calls st)) \<and>
         (status (p_task (tasks st ! i)) = Failed \<longrightarrow>
            (\<exists>ks. error (p_task (tasks st ! i)) =
                     Some (trim (''Suspended: Parent job is faild: '' @
                                 join '', '' (map (\<lambda>k. name (p_task (tasks st ! k))) ks))) \<and>
                  set ks \<subseteq> {k. k < length (tasks st) \<and> status (p_task (tasks st ! k)) = Failed \<and>
                                p_ns (tasks st ! k) \<in> set (dependencies (p_job (tasks st ! i)))}))"
proof -
  let ?ts = "tasks st"
  have inv0: "sys_inv st0" by (rule sys_inv_fresh[OF assms(1)])
  have inv: "sys_inv st" by (rule sys_inv_run_actions[OF inv0 assms(2)])
  have ended: "ended_inv st"
    by (rule ended_inv_run_actions[OF inv0 ended_inv_fresh[OF assms(1)] assms(2)])
  from inv assms(3,4) have "set aw \<subseteq> set (predecessors ?ts i)" unfolding sys_inv_def by blast
  then have jl: "j < length ?ts" using assms(5) predecessors_bound by blast
  have cj: "coherent (p_task (?ts ! j))" using inv jl by (simp add: sys_inv_def)
  then have rej: "is_rejected (runningPromise (p_task (?ts ! j)))" using assms(6)
    by (simp add: coherent_def)
  have nf: "\<not> is_fulfilled (runningPromise (p_task (?ts ! j)))" using cj assms(6)
    by (auto simp: coherent_def)
  have nd: "\<not> deploying (?ts ! i)"
  proof
    assume "deploying (?ts ! i)"
    with inv assms(3) obtain aw' where "awaited (?ts ! i) = Some aw'"
      and "\<forall>k\<in>set aw'. k < length ?ts \<and> status (p_task (?ts ! k)) = Success"
      unfolding sys_inv_def by blast
    then show False using assms(4,5,6) by auto
  qed
  have nb: "sys_step (DeployBegin i) st = None"
    using assms(4,5) nf by (auto simp: Let_def list_all_iff)
  have np: "status (p_task (?ts ! i)) \<noteq> Pending"
    using inv assms(3,4) unfolding sys_inv_def by blast
  have ns: "status (p_task (?ts ! i)) \<noteq> Success"
    using ended assms(3) nd unfolding ended_inv_def by blast
  have rf: "status (p_task (?ts ! i)) = Running \<or> status (p_task (?ts ! i)) = Failed"
    using np ns by (cases "status (p_task (?ts ! i))") simp_all
  have ci: "coherent (p_task (?ts ! i))" using inv assms(3) by (simp add: sys_inv_def)
  have su: "status (p_task (?ts ! i)) = Running \<Longrightarrow>
     (\<exists>st'. sys_step (Suspend i) st = Some st' \<and>
            status (p_task (tasks st' ! i)) = Failed \<and>
            error (p_task (tasks st' ! i)) = Some (trim (suspended_message ?ts i)) \<and>
            \<not> deploying (tasks st' ! i) \<and> calls st' = calls st)"
  proof -
    assume r: "status (p_task (?ts ! i)) = Running"
    then have u: "runningPromise (p_task (?ts ! i)) = Some Unsettled" using ci by (simp add: coherent_def)
    have ex: "list_ex (\<lambda>k. is_rejected (runningPromise (p_task (?ts ! k)))) aw"
      using assms(5) rej by (auto simp: list_ex_iff)
    show ?thesis
      using r nd assms(3,4) ex u by (simp add: Let_def set_task_def settle_def)
  qed
  define ks where "ks = filter (\<lambda>k. status (p_task (?ts ! k)) = Failed)
                          (concat (map (\<lambda>d. node_tasks d ?ts) (dependencies (p_job (?ts ! i)))))"
  have m: "suspended_message ?ts i =
             ''Suspended: Parent job is faild: '' @ join '', '' (map (\<lambda>k. name (p_task (?ts ! k))) ks)"
    by (simp add: suspended_message_def ks_def)
  have k1: "set ks = {k. k < length ?ts \<and> status (p_task (?ts ! k)) = Failed \<and>
                        p_ns (?ts ! k) \<in> set (dependencies (p_job (?ts ! i)))}"
    by (auto simp: ks_def node_tasks_def)
  have fl: "status (p_task (?ts ! i)) = Failed \<longrightarrow>
            (\<exists>ks. error (p_task (?ts ! i)) =
                     Some (trim (''Suspended: Parent job is faild: '' @
                                 join '', '' (map (\<lambda>k. name (p_task (?ts ! k))) ks))) \<and>
                  set ks \<subseteq> {k. k < length ?ts \<and> status (p_task (?ts ! k)) = Failed \<and>
                                p_ns (?ts ! k) \<in> set (dependencies (p_job (?ts ! i)))})"
  proof
    assume "status (p_task (?ts ! i)) = Failed"
    with ended assms(3) nd obtain ks' where
      "error (p_task (?ts ! i)) =
         Some (trim (''Suspended: Parent job is faild: '' @
                     join '', '' (map (\<lambda>k. name (p_task (?ts ! k))) ks')))"
      "\<forall>k\<in>set ks'. k < length ?ts \<and> status (p_task (?ts ! k)) = Failed \<and>
          p_ns (?ts ! k) \<in> set (dependencies (p_job (?ts ! i)))"
      unfolding ended_inv_def by blast
    then show "\<exists>ks. error (p_task (?ts ! i)) =
                     Some (trim (''Suspended: Parent job is faild: '' @
                                 join '', '' (map (\<lambda>k. name (p_task (?ts ! k))) ks))) \<and>
                  set ks \<subseteq> {k. k < length ?ts \<and> status (p_task (?ts ! k)) = Failed \<and>
                                p_ns (?ts ! k) \<in> set (dependencies (p_job (?ts ! i)))}"
      by (intro exI[of _ ks']) auto
  qed
  have on: "\<forall>a st'. sys_step a st = Some st' \<and> tasks st' ! i \<noteq> tasks st ! i \<longrightarrow> a = Suspend i"
    using only_suspension[OF nd np nb] by blast
  have rn: "status (p_task (?ts ! i)) = Running \<longrightarrow>
            (\<exists>st' ks. sys_step (Suspend i) st = Some st' \<and>
                   status (p_task (tasks st' ! i)) = Failed \<and>
                   error (p_task (tasks st' ! i)) =
                     Some (trim (''Suspended: Parent job is faild: '' @
                                 join '', '' (map (\<lambda>k. name (p_task (tasks st ! k))) ks))) \<and>
                   set ks = {k. k < length (tasks st) \<and> status (p_task (tasks st ! k)) = Failed \<and>
                                p_ns (tasks st ! k) \<in> set (dependencies (p_job (tasks st ! i)))} \<and>
                   \<not> deploying (tasks st' ! i) \<and> calls st' = calls st)"
  proof
    assume "status (p_task (?ts ! i)) = Running"
    from su[OF this] obtain st' where "sys_step (Suspend i) st = Some st'"
      "status (p_task (tasks st' ! i)) = Failed"
      "error (p_task (tasks st' ! i)) = Some (trim (suspended_message ?ts i))"
      "\<not> deploying (tasks st' ! i)" "calls st' = calls st" by blast
    then show "\<exists>st' ks. sys_step (Suspend i) st = Some st' \<and>
                   status (p_task (tasks st' ! i)) = Failed \<and>
                   error (p_task (tasks st' ! i)) =
                     Some (trim (''Suspended: Parent job is faild: '' @
                                 join '', '' (map (\<lambda>k. name (p_task (tasks st ! k))) ks))) \<and>
                   set ks = {k. k < length (tasks st) \<and> status (p_task (tasks st ! k)) = Failed \<and>
                                p_ns (tasks st ! k) \<in> set (dependencies (p_job (tasks st ! i)))} \<and>
                   \<not> deploying (tasks st' ! i) \<and> calls st' = calls st"
      using k1 unfolding m by blast
  qed
  have lt: "\<forall>bs st''. run_actions bs st = Some st'' \<longrightarrow> \<not> deploying (tasks st'' ! i)"
    using run_actions_never_deploys[OF inv _ assms(3,4,5,6)] by blast
  show ?thesis using nd nb lt rf on rn fl by blast
qed

theorem suspended_by_failed_parent_witness:
  "list_all fresh (tasks (planned_system fan_jobs)) \<and>
   (\<exists>st st'. run_actions [Start 0, Start 1, Start 2, DeployBegin 0, DeployBegin 1,
                          DeployEnd 0 (Rejected (ErrorObject ''Not found: Dataset p:ds''))]
                (planned_system fan_jobs) = Some st \<and>
         awaited (tasks st ! 2) = Some [0, 1] \<and> status (p_task (tasks st ! 0)) = Failed \<and>
         status (p_task (tasks st ! 2)) = Running \<and>
         \<not> deploying (tasks st ! 2) \<and> sys_step (DeployBegin 2) st = None \<and>
         sys_step (Suspend 2) st = Some st' \<and> status (p_task (tasks st' ! 2)) = Failed \<and>
         error (p_task (tasks st' ! 2)) = Some ''Suspended: Parent job is faild: p/ds/a/ddl.sql'' \<and>
         \<not> deploying (tasks st' ! 2) \<and> calls st' = calls st) \<and>
   (\<exists>st ks. run_actions [Start 0, Start 1, Start 2, DeployBegin 0, DeployBegin 1,
                         DeployEnd 0 (Rejected (ErrorObject ''Not found: Dataset p:ds'')),
                         Suspend 2,
                         DeployEnd 1 (Rejected (ErrorObject ''Quota exceeded''))]
                (planned_system fan_jobs) = Some st \<and>
         awaited (tasks st ! 2) = Some [0, 1] \<and> status (p_task (tasks st ! 1)) = Failed \<and>
         status (p_task (tasks st ! 2)) = Failed \<and>
         \<not> deploying (tasks st ! 2) \<and> sys_step (DeployBegin 2) st = None \<and>
         error (p_task (tasks st ! 2)) = Some ''Suspended: Parent job is faild: p/ds/a/ddl.sql'' \<and>
         error (p_task (tasks st ! 2)) =
           Some (trim (''Suspended: Parent job is faild: '' @
                       join '', '' (map (\<lambda>k. name (p_task (tasks st ! k))) ks))) \<and>
         set ks \<subseteq> {k. k < length (tasks st) \<and> status (p_task (tasks st ! k)) = Failed \<and>
                       p_ns (tasks st ! k) \<in> set (dependencies (p_job (tasks st ! 2)))})"
proof -
  let ?as = "[Start 0, Start 1, Start 2, DeployBegin 0, DeployBegin 1,
              DeployEnd 0 (Rejected (ErrorObject ''Not found: Dataset p:ds''))]"
  let ?bs = "[Start 0, Start 1, Start 2, DeployBegin 0, DeployBegin 1,
              DeployEnd 0 (Rejected (ErrorObject ''Not found: Dataset p:ds'')),
              Suspend 2,
              DeployEnd 1 (Rejected (ErrorObject ''Quota exceeded''))]"
  define st where "st = the (run_actions ?as (planned_system fan_jobs))"
  define su where "su = the (run_actions ?bs (planned_system fan_jobs))"
  have f: "list_all fresh (tasks (planned_system fan_jobs))" by code_simp
  have "run_actions ?as (planned_system fan_jobs) \<noteq> None" by code_simp
  then have r: "run_actions ?as (planned_system fan_jobs) = Some st" unfolding st_def by auto
  have l: "2 < length (tasks st)" unfolding st_def by code_simp
  have a: "awaited (tasks st ! 2) = Some [0, 1]" unfolding st_def by code_simp
  have j: "0 \<in> set [0, 1::nat]" by simp
  have s0: "status (p_task (tasks st ! 0)) = Failed" unfolding st_def by code_simp
  have s2: "status (p_task (tasks st ! 2)) = Running" unfolding st_def by code_simp
  have e: "error (the (map_option (\<lambda>s. p_task (tasks s ! 2)) (sys_step (Suspend 2) st)))
             = Some ''Suspended: Parent job is faild: p/ds/a/ddl.sql''"
    unfolding st_def by code_simp
  from suspended_by_failed_parent[OF f r l a j s0] s2 obtain st' where
    "\<not> deploying (tasks st ! 2)" "sys_step (DeployBegin 2) st = None"
    "sys_step (Suspend 2) st = Some st'" "status (p_task (tasks st' ! 2)) = Failed"
    "\<not> deploying (tasks st' ! 2)" "calls st' = calls st"
    by blast
  then have first: "\<exists>st st'. run_actions ?as (planned_system fan_jobs) = Some st \<and>
         awaited (tasks st ! 2) = Some [0, 1] \<and> status (p_task (tasks st ! 0)) = Failed \<and>
         status (p_task (tasks st ! 2)) = Running \<and>
         \<not> deploying (tasks st ! 2) \<and> sys_step (DeployBegin 2) st = None \<and>
         sys_step (Suspend 2) st = Some st' \<and> status (p_task (tasks st' ! 2)) = Failed \<and>
         error (p_task (tasks st' ! 2)) = Some ''Suspended: Parent job is faild: p/ds/a/ddl.sql'' \<and>
         \<not> deploying (tasks st' ! 2) \<and> calls st' = calls st"
    using r a s0 s2 e by auto
  have "run_actions ?bs (planned_system fan_jobs) \<noteq> None" by code_simp
  then have r': "run_actions ?bs (planned_system fan_jobs) = Some su" unfolding su_def by auto
  have l': "2 < length (tasks su)" unfolding su_def by code_simp
  have a': "awaited (tasks su ! 2) = Some [0, 1]" unfolding su_def by code_simp
  have j': "1 \<in> set [0, 1::nat]" by simp
  have s1': "status (p_task (tasks su ! 1)) = Failed" unfolding su_def by code_simp
  have s2': "status (p_task (tasks su ! 2)) = Failed" unfolding su_def by code_simp
  have e': "error (p_task (tasks su ! 2)) = Some ''Suspended: Parent job is faild: p/ds/a/ddl.sql''"
    unfolding su_def by code_simp
  from suspended_by_failed_parent[OF f r' l' a' j' s1'] s2' obtain ks where
    "\<not> deploying (tasks su ! 2)" "sys_step (DeployBegin 2) su = None"
    "error (p_task (tasks su ! 2)) =
       Some (trim (''Suspended: Parent job is faild: '' @
                   join '', '' (map (\<lambda>k. name (p_task (tasks su ! k))) ks)))"
    "set ks \<subseteq> {k. k < length (tasks su) \<and> status (p_task (tasks su ! k)) = Failed \<and>
                  p_ns (tasks su ! k) \<in> set (dependencies (p_job (tasks su ! 2)))}"
    by blast
  then have second: "\<exists>st ks. run_actions ?bs (planned_system fan_jobs) = Some st \<and>
         awaited (tasks st ! 2) = Some [0, 1] \<and> status (p_task (tasks st ! 1)) = Failed \<and>
         status (p_task (tasks st ! 2)) = Failed \<and>
         \<not> deploying (tasks st ! 2) \<and> sys_step (DeployBegin 2) st = None \<and>
         error (p_task (tasks st ! 2)) = Some ''Suspended: Parent job is faild: p/ds/a/ddl.sql'' \<and>
         error (p_task (tasks st ! 2)) =
           Some (trim (''Suspended: Parent job is faild: '' @
                       join '', '' (map (\<lambda>k. name (p_task (tasks st ! k))) ks))) \<and>
         set ks \<subseteq> {k. k < length (tasks st) \<and> status (p_task (tasks st ! k)) = Failed \<and>
                       p_ns (tasks st ! k) \<in> set (dependencies (p_job (tasks st ! 2)))}"
    using r' a' s1' s2' e' by blast
  show ?thesis using f first second by blast
qed

theorem suspended_by_failed_parent_counterexample:
  "map_option snapshot
     (run_actions [Start 0, DeployBegin 0,
                   DeployEnd 0 (Rejected (ErrorObject ''Not found: Dataset p:ds'')),
                   Start 1, Suspend 1] (planned_system sibling_jobs)) =
   Some [(''p.ds.t'', ''p/ds/t/ddl.sql'', Failed, Some ''Not found: Dataset p:ds'', Some [], True),
         (''p.ds.t'', ''p/ds/t/test.sql'', Failed, Some ''Suspended: Parent job is faild:'',
          Some [0], False)] \<and>
   map_option snapshot
     (run_actions [Start 0, Start 1, Start 2, DeployBegin 0, DeployBegin 1,
                   DeployEnd 0 (Rejected (ErrorObject ''Not found: Dataset p:ds'')),
                   Suspend 2,
                   DeployEnd 1 (Rejected (ErrorObject ''Quota exceeded''))] (planned_system fan_jobs)) =
   Some [(''p.ds.a'', ''p/ds/a/ddl.sql'', Failed, Some ''Not found: Dataset p:ds'', Some [], True),
         (''p.ds.b'', ''p/ds/b/ddl.sql'', Failed, Some ''Quota exceeded'', Some [], True),
         (''p.ds.c'', ''p/ds/c/ddl.sql'', Failed, Some ''Suspended: Parent job is faild: p/ds/a/ddl.sql'',
          Some [0, 1], False)]"
  by code_simp

end
